theory Spec2Isabelle
  imports Complex_Main "HOL-Library.Multiset"
begin

section \<open>Face matcher\<close>

text \<open>
  The three variants of \<^verbatim>\<open>compare_faces\<close> (f6.py, 2.py, final2.py) walk the list
  \<^verbatim>\<open>reference_encodings\<close> of pairs (image path, encoding) in its loaded order and return
  \<^verbatim>\<open>True\<close> at the first reference that passes the variant's test. The library call
  \<^verbatim>\<open>face_recognition.face_distance\<close> is a parameter \<open>face_distance\<close> of the model; distances
  are real numbers (the rounding of the machine's floating point is not modelled). The result
  carries, besides the returned boolean, the paths printed by the line
  \<^verbatim>\<open>Comparing with reference: ...\<close>, in order: the references the loop examined.
\<close>

definition confidence :: "real \<Rightarrow> real" where
  "confidence face_distance = (1 - face_distance) * 100"

text \<open>f6.py, line 316: \<^verbatim>\<open>if face_distance < 0.4 and confidence > 80\<close>.\<close>

definition strong_match_f6 :: "real \<Rightarrow> bool" where
  "strong_match_f6 face_distance \<longleftrightarrow> face_distance < 0.4 \<and> confidence face_distance > 80"

text \<open>
  The same test in the arithmetic that runs it. \<^verbatim>\<open>face_distance\<close> is a numpy
  \<^verbatim>\<open>float64\<close>, so \<^verbatim>\<open>1 - face_distance\<close> and its product with 100 are IEEE binary64
  operations: the exact result rounded to the nearest double, a tie going to the even
  significand. A double is taken as the real number it denotes, and \<open>float64 x\<close> is the
  double nearest to \<open>x\<close>: a multiple of 2 to the power \<open>\<lfloor>log\<^sub>2 \<bar>x\<bar>\<rfloor> - 52\<close>. Overflow and
  subnormal numbers are left out: for a double \<open>d\<close> the difference \<open>1 - d\<close> is 0 or at
  least \<open>2\<^sup>-\<^sup>5\<^sup>3\<close> in size, and a product that overflows keeps its sign, which alone
  decides its comparison with 80. The literals 1, 100 and 80 are doubles; 0.4 is read as
  \<open>float64 0.4\<close>.
\<close>

definition round_half_even :: "real \<Rightarrow> int" where
  "round_half_even q =
     (let n = \<lfloor>q\<rfloor>; r = q - of_int n
      in if r < 1 / 2 then n else if 1 / 2 < r then n + 1 else if even n then n else n + 1)"

definition ulp_exponent :: "real \<Rightarrow> int" where
  "ulp_exponent x = \<lfloor>log 2 \<bar>x\<bar>\<rfloor> - 52"

definition float64 :: "real \<Rightarrow> real" where
  "float64 x =
     (if x = 0 then 0
      else of_int (round_half_even (x / 2 powi ulp_exponent x)) * 2 powi ulp_exponent x)"

definition confidence_float64 :: "real \<Rightarrow> real" where
  "confidence_float64 face_distance = float64 (float64 (1 - face_distance) * 100)"

definition strong_match_f6_float64 :: "real \<Rightarrow> bool" where
  "strong_match_f6_float64 face_distance \<longleftrightarrow>
     face_distance < float64 0.4 \<and> confidence_float64 face_distance > 80"

text \<open>2.py, line 300: \<^verbatim>\<open>if face_distance < 0.7 and confidence > 50\<close>.\<close>

definition strong_match_2 :: "real \<Rightarrow> bool" where
  "strong_match_2 face_distance \<longleftrightarrow> face_distance < 0.7 \<and> confidence face_distance > 50"


text \<open>The \<^verbatim>\<open>for image_path, ref_encoding in reference_encodings\<close> loop.\<close>

fun compare_loop ::
  "(real \<Rightarrow> bool) \<Rightarrow> ('e \<Rightarrow> 'e \<Rightarrow> real) \<Rightarrow> (string \<times> 'e) list \<Rightarrow> 'e \<Rightarrow> bool \<times> string list"
where
  "compare_loop test face_distance [] captured_encoding = (False, [])"
| "compare_loop test face_distance ((image_path, ref_encoding) # rest) captured_encoding =
     (if test (face_distance ref_encoding captured_encoding) then (True, [image_path])
      else (case compare_loop test face_distance rest captured_encoding of
              (found, examined) \<Rightarrow> (found, image_path # examined)))"

text \<open>
  \<^verbatim>\<open>compare_faces(captured_image_path)\<close>: \<open>path_exists\<close> is
  \<^verbatim>\<open>os.path.exists(captured_image_path)\<close>, \<open>captured_encodings\<close> the list returned by
  \<^verbatim>\<open>face_recognition.face_encodings\<close> on the captured image. A missing file and an image
  without an encoding both return \<^verbatim>\<open>False\<close> before any reference is examined.
\<close>

definition compare_faces ::
  "(real \<Rightarrow> bool) \<Rightarrow> ('e \<Rightarrow> 'e \<Rightarrow> real) \<Rightarrow> (string \<times> 'e) list \<Rightarrow> bool \<Rightarrow> 'e list \<Rightarrow> bool \<times> string list"
where
  "compare_faces test face_distance reference_encodings path_exists captured_encodings =
     (if \<not> path_exists then (False, [])
      else (case captured_encodings of
              [] \<Rightarrow> (False, [])
            | captured_encoding # _ \<Rightarrow>
                compare_loop test face_distance reference_encodings captured_encoding))"

abbreviation compare_faces_f6 where "compare_faces_f6 \<equiv> compare_faces strong_match_f6"
abbreviation compare_faces_2 where "compare_faces_2 \<equiv> compare_faces strong_match_2"

section \<open>Capture quality gate\<close>

text \<open>
  One camera frame as the capture loop sees it: its shape (rows, columns), the value of
  \<^verbatim>\<open>np.mean\<close> on its grey conversion, the boxes \<^verbatim>\<open>(top, right, bottom, left)\<close> returned by
  \<^verbatim>\<open>face_recognition.face_locations\<close> and the landmarks returned by
  \<^verbatim>\<open>face_recognition.face_landmarks\<close>. Of the landmarks the code reads the first point
  \<^verbatim>\<open>(x, y)\<close> of each eye (the chin points are read into variables that are never used).
\<close>

type_synonym face_location = "int \<times> int \<times> int \<times> int"

record landmarks =
  left_eye_0 :: "int \<times> int"
  right_eye_0 :: "int \<times> int"

record frame =
  shape_0 :: int
  shape_1 :: int
  brightness :: real
  face_locations :: "face_location list"
  face_landmarks :: "landmarks list"

text \<open>
  What one iteration of the loop observes: \<^verbatim>\<open>camera.isOpened()\<close> (read inside the loop by
  final2.py only), the pair \<^verbatim>\<open>ret, frame\<close>, and the value of
  \<^verbatim>\<open>os.path.exists(captured_image_path)\<close> after \<^verbatim>\<open>cv2.imwrite\<close> (read by f6.py only).
\<close>

record grab =
  is_opened :: bool
  ret :: bool
  frame :: "frame option"
  path_exists_after_write :: bool

text \<open>
  How a call ends: it returns a value, it raises, or it blocks for ever.
  \<^verbatim>\<open>camera_lock\<close> is a \<^verbatim>\<open>threading.Lock\<close>, which is not re-entrant, and
  \<^verbatim>\<open>initialize_camera\<close> (f6.py) and \<^verbatim>\<open>reinitialize_camera\<close> (final2.py) acquire it: called
  from a block that already holds it, they never return.
\<close>

datatype 'a outcome = Returned 'a | Raised | Blocked

definition max_retries_f6 :: nat where "max_retries_f6 = 10"
definition min_face_size :: int where "min_face_size = 150"
definition min_brightness :: real where "min_brightness = 50"
definition max_retries_final2 :: nat where "max_retries_final2 = 5"

text \<open>\<^verbatim>\<open>np.arctan2(y, x)\<close>, the angle of the point \<open>(x, y)\<close> in \<open>[-\<pi>, \<pi>]\<close>, over the reals.\<close>

definition arctan2 :: "real \<Rightarrow> real \<Rightarrow> real" where
  "arctan2 y x =
     (if 0 < x then arctan (y / x)
      else if x < 0 then (if 0 \<le> y then arctan (y / x) + pi else arctan (y / x) - pi)
      else if 0 < y then pi / 2
      else if y < 0 then - (pi / 2)
      else 0)"

definition eye_angle :: "landmarks \<Rightarrow> real" where
  "eye_angle lm =
     arctan2 (real_of_int (snd (right_eye_0 lm) - snd (left_eye_0 lm)))
             (real_of_int (fst (right_eye_0 lm) - fst (left_eye_0 lm))) * 180 / pi"

datatype verdict =
  Read_failed | Too_dark | No_face | Too_small | Zero_division | Not_centered
  | Multiple_faces | Rotated | Save_failed | Captured frame

text \<open>
  The body of the \<^verbatim>\<open>while\<close> loop of f6.py (lines 189 to 282), one iteration. The offsets
  divide by \<^verbatim>\<open>frame.shape[1] // 2\<close> and \<^verbatim>\<open>frame.shape[0] // 2\<close>: Python raises
  \<^verbatim>\<open>ZeroDivisionError\<close> when one of them is 0.
\<close>

definition attempt_f6 :: "grab \<Rightarrow> verdict" where
  "attempt_f6 g =
     (case frame g of
        None \<Rightarrow> Read_failed
      | Some f \<Rightarrow>
          if \<not> ret g then Read_failed
          else if brightness f < min_brightness then Too_dark
          else (case face_locations f of
                  [] \<Rightarrow> No_face
                | (top', right, bottom, left) # others \<Rightarrow>
                    let face_width = right - left;
                        face_height = bottom - top';
                        face_center_x = (left + right) div 2;
                        face_center_y = (top' + bottom) div 2;
                        frame_center_x = shape_1 f div 2;
                        frame_center_y = shape_0 f div 2
                    in if face_width < min_face_size \<or> face_height < min_face_size then Too_small
                       else if frame_center_x = 0 \<or> frame_center_y = 0 then Zero_division
                       else if real_of_int \<bar>face_center_x - frame_center_x\<bar> / real_of_int frame_center_x > 0.2
                               \<or> real_of_int \<bar>face_center_y - frame_center_y\<bar> / real_of_int frame_center_y > 0.2
                            then Not_centered
                       else if length (face_locations f) > 1 then Multiple_faces
                       else if (case face_landmarks f of [] \<Rightarrow> False | lm # _ \<Rightarrow> \<bar>eye_angle lm\<bar> > 15)
                            then Rotated
                       else if path_exists_after_write g then Captured f
                       else Save_failed))"

text \<open>
  The loop \<^verbatim>\<open>while retry_count < max_retries\<close> of f6.py over the observations still to
  come. Only a failed read and a failed save execute \<^verbatim>\<open>retry_count += 1\<close>; the quality
  rejections \<^verbatim>\<open>continue\<close> with the counter unchanged. The result is \<open>None\<close> when the
  observations end while the loop is still running. The last argument counts the
  iterations executed (it is not a variable of the source).
\<close>

fun capture_loop_f6 :: "grab list \<Rightarrow> nat \<Rightarrow> nat \<Rightarrow> (frame option outcome \<times> nat) option" where
  "capture_loop_f6 [] retry_count n =
     (if retry_count < max_retries_f6 then None else Some (Returned None, n))"
| "capture_loop_f6 (g # gs) retry_count n =
     (if retry_count < max_retries_f6 then
        (case attempt_f6 g of
           Read_failed \<Rightarrow> capture_loop_f6 gs (retry_count + 1) (n + 1)
         | Save_failed \<Rightarrow> capture_loop_f6 gs (retry_count + 1) (n + 1)
         | Captured f \<Rightarrow> Some (Returned (Some f), n + 1)
         | Zero_division \<Rightarrow> Some (Raised, n + 1)
         | _ \<Rightarrow> capture_loop_f6 gs retry_count (n + 1))
      else Some (Returned None, n))"

text \<open>
  The loop of final2.py (lines 116 to 176): a closed camera calls
  \<^verbatim>\<open>reinitialize_camera\<close> under the lock; a failed read counts; a dark frame and a frame
  without a face do not; a frame with at least one face is written and returned.
  \<^verbatim>\<open>frame.size\<close> is rows times columns times the three colour channels.
\<close>

fun capture_loop_final2 :: "grab list \<Rightarrow> nat \<Rightarrow> nat \<Rightarrow> (frame option outcome \<times> nat) option" where
  "capture_loop_final2 [] retry_count n =
     (if retry_count < max_retries_final2 then None else Some (Returned None, n))"
| "capture_loop_final2 (g # gs) retry_count n =
     (if retry_count < max_retries_final2 then
        (if \<not> is_opened g then Some (Blocked, n + 1)
         else (case frame g of
                 None \<Rightarrow> capture_loop_final2 gs (retry_count + 1) (n + 1)
               | Some f \<Rightarrow>
                   if \<not> ret g \<or> shape_0 f * shape_1 f * 3 = 0
                   then capture_loop_final2 gs (retry_count + 1) (n + 1)
                   else if brightness f < 30 then capture_loop_final2 gs retry_count (n + 1)
                   else if face_locations f \<noteq> [] then Some (Returned (Some f), n + 1)
                   else capture_loop_final2 gs retry_count (n + 1)))
      else Some (Returned None, n))"

section \<open>Capture files\<close>

text \<open>
  A file \<^verbatim>\<open>captured_face_<timestamp>.png\<close> of the image directory: the timestamp of its
  name (fixed width, so the order of the names is the order of the timestamps) and its
  \<^verbatim>\<open>os.path.getctime\<close>. The directory is the list that \<^verbatim>\<open>glob.glob\<close> returns.
  \<^verbatim>\<open>os.remove\<close> sits in a \<^verbatim>\<open>try\<close> whose handler only prints: \<open>remove_fails\<close> says for which
  files it raises.
\<close>

record capture_file =
  stamp :: nat
  ctime :: nat

definition os_remove ::
  "(capture_file \<Rightarrow> bool) \<Rightarrow> capture_file \<Rightarrow> capture_file list \<Rightarrow> capture_file list" where
  "os_remove remove_fails f files = (if remove_fails f then files else removeAll f files)"

text \<open>\<^verbatim>\<open>cv2.imwrite\<close> creates the file, or replaces the file of the same name.\<close>

definition imwrite :: "capture_file \<Rightarrow> capture_file list \<Rightarrow> capture_file list" where
  "imwrite new_file files = filter (\<lambda>f. stamp f \<noteq> stamp new_file) files @ [new_file]"

text \<open>
  f6.py, lines 169 to 176: \<^verbatim>\<open>for old_img in sorted(glob(...))[:-1]: os.remove(old_img)\<close>.
\<close>

definition remove_old_images ::
  "(capture_file \<Rightarrow> bool) \<Rightarrow> capture_file list \<Rightarrow> capture_file list" where
  "remove_old_images remove_fails files =
     fold (os_remove remove_fails) (butlast (sort_key stamp files)) files"

text \<open>\<^verbatim>\<open>max(glob(...), key=os.path.getctime, default=None)\<close>: the first file of greatest ctime.\<close>

fun max_ctime :: "capture_file \<Rightarrow> capture_file list \<Rightarrow> capture_file" where
  "max_ctime best [] = best"
| "max_ctime best (f # fs) = max_ctime (if ctime best < ctime f then f else best) fs"

definition latest_image :: "capture_file list \<Rightarrow> capture_file option" where
  "latest_image files = (case files of [] \<Rightarrow> None | f # fs \<Rightarrow> Some (max_ctime f fs))"

text \<open>
  \<^verbatim>\<open>capture_image_with_face\<close> of f6.py (its second definition, lines 162 to 285, which
  replaces the first): prune the directory, then, under the lock, reopen a closed camera
  (which blocks) or run the loop; the accepted frame is written to \<open>new_file\<close>. The result
  is the outcome, the number of iterations and the directory afterwards.
\<close>

definition capture_image_with_face_f6 ::
  "(capture_file \<Rightarrow> bool) \<Rightarrow> bool \<Rightarrow> capture_file \<Rightarrow> grab list \<Rightarrow> capture_file list
     \<Rightarrow> (frame option outcome \<times> nat \<times> capture_file list) option" where
  "capture_image_with_face_f6 remove_fails camera_opened new_file gs files =
     (let files1 = remove_old_images remove_fails files in
      if \<not> camera_opened then Some (Blocked, 0, files1)
      else (case capture_loop_f6 gs 0 0 of
              None \<Rightarrow> None
            | Some (Returned (Some f), n) \<Rightarrow> Some (Returned (Some f), n, imwrite new_file files1)
            | Some (out, n) \<Rightarrow> Some (out, n, files1)))"

text \<open>
  \<^verbatim>\<open>capture_image_with_face\<close> of final2.py: no file is removed; the accepted frame is
  written to \<open>new_file\<close>.
\<close>

definition capture_image_with_face_final2 ::
  "capture_file \<Rightarrow> grab list \<Rightarrow> capture_file list
     \<Rightarrow> (frame option outcome \<times> nat \<times> capture_file list) option" where
  "capture_image_with_face_final2 new_file gs files =
     (case capture_loop_final2 gs 0 0 of
        None \<Rightarrow> None
      | Some (Returned (Some f), n) \<Rightarrow> Some (Returned (Some f), n, imwrite new_file files)
      | Some (out, n) \<Rightarrow> Some (out, n, files))"

section \<open>Ignition state and authorization\<close>

text \<open>
  The module's global variables and the image directory. Two fields record what the
  code does to the outside: \<open>motor_threads\<close> counts the threads started on
  \<^verbatim>\<open>step_motor_continuous\<close> (the commands to the actuator) and \<open>sms_log\<close> lists the
  messages handed to the notifier. The log list, its timestamps and the calls to
  \<^verbatim>\<open>sleep\<close> are left out. Each handler runs as one step: a thread started on
  \<^verbatim>\<open>step_motor_continuous\<close> is taken to execute its first statement,
  \<^verbatim>\<open>motor_running = True\<close>, at once.
\<close>

datatype sms = Vehicle_started | Unauthorized_attempt

record state =
  motor_running :: bool
  vehicle_stopped :: bool
  pending_authorization :: bool
  sms_sent_for_current_attempt :: bool
  face_recognition_active :: bool
  files :: "capture_file list"
  motor_threads :: nat
  sms_log :: "sms list"

definition initial_state :: state where
  "initial_state =
     \<lparr>motor_running = False, vehicle_stopped = True, pending_authorization = False,
      sms_sent_for_current_attempt = False, face_recognition_active = False,
      files = [], motor_threads = 0, sms_log = []\<rparr>"

definition start_motor_thread :: "state \<Rightarrow> state" where
  "start_motor_thread s = s\<lparr>motor_running := True, motor_threads := Suc (motor_threads s)\<rparr>"

definition send_sms :: "state \<Rightarrow> state" where
  "send_sms s = s\<lparr>sms_log := sms_log s @ [Vehicle_started]\<rparr>"

definition send_image_to_owner :: "state \<Rightarrow> state" where
  "send_image_to_owner s = s\<lparr>sms_log := sms_log s @ [Unauthorized_attempt]\<rparr>"

text \<open>The field \<^verbatim>\<open>action\<close> of the posted form.\<close>

datatype action = Yes | No | Other_action

text \<open>
  \<^verbatim>\<open>if latest_image and os.path.exists(latest_image): os.remove(latest_image)\<close>, f6.py
  lines 658 to 663 and 679 to 684.
\<close>

definition remove_latest_image :: "(capture_file \<Rightarrow> bool) \<Rightarrow> state \<Rightarrow> state" where
  "remove_latest_image remove_fails s =
     (case latest_image (files s) of
        None \<Rightarrow> s
      | Some f \<Rightarrow> s\<lparr>files := os_remove remove_fails f (files s)\<rparr>)"

text \<open>
  The \<^verbatim>\<open>POST\<close> branch of \<^verbatim>\<open>authorize\<close> in f6.py (lines 647 to 689). No statement of it
  reads \<^verbatim>\<open>pending_authorization\<close>.
\<close>

definition authorize_f6 :: "(capture_file \<Rightarrow> bool) \<Rightarrow> action \<Rightarrow> state \<Rightarrow> state" where
  "authorize_f6 remove_fails action s =
     (case action of
        Yes \<Rightarrow>
          (let s1 = remove_latest_image remove_fails s;
               s2 = start_motor_thread s1;
               s3 = s2\<lparr>vehicle_stopped := False\<rparr>;
               s4 = send_sms s3
           in s4\<lparr>pending_authorization := False, sms_sent_for_current_attempt := False\<rparr>)
      | No \<Rightarrow>
          (let s1 = remove_latest_image remove_fails s
           in s1\<lparr>pending_authorization := False, sms_sent_for_current_attempt := False\<rparr>)
      | Other_action \<Rightarrow> s)"

text \<open>
  \<^verbatim>\<open>send_sms\<close> of final2.py (lines 370 to 410) assigns \<^verbatim>\<open>last_log_time\<close> without
  declaring it \<^verbatim>\<open>global\<close>, so the name is local to the function and each of its three
  paths reads it before any assignment: after the post to the message service the call
  raises \<^verbatim>\<open>UnboundLocalError\<close>, from the \<^verbatim>\<open>try\<close> block into the handler, whose own
  read raises it again to the caller.
\<close>

datatype 'a raising = Completed 'a | Unbound_local_error 'a

definition send_sms_final2 :: "state \<Rightarrow> state raising" where
  "send_sms_final2 s = Unbound_local_error (send_sms s)"

text \<open>How a request ends: the redirect to the main page, or the error page of a handler
  that raised.\<close>

datatype response = Redirect | Server_error

text \<open>
  The \<^verbatim>\<open>POST\<close> branch of \<^verbatim>\<open>authorize\<close> in final2.py (lines 527 to 548): no file is
  removed. With action \<^verbatim>\<open>yes\<close> the motor thread is started and \<^verbatim>\<open>vehicle_stopped\<close>
  cleared before \<^verbatim>\<open>send_sms\<close> is called; the two assignments after the call are reached
  only when it returns.
\<close>

definition authorize_final2 :: "action \<Rightarrow> state \<Rightarrow> state \<times> response" where
  "authorize_final2 action s =
     (case action of
        Yes \<Rightarrow>
          (let s2 = start_motor_thread s;
               s3 = s2\<lparr>vehicle_stopped := False\<rparr>
           in case send_sms_final2 s3 of
                Unbound_local_error s4 \<Rightarrow> (s4, Server_error)
              | Completed s4 \<Rightarrow>
                  (s4\<lparr>pending_authorization := False, sms_sent_for_current_attempt := False\<rparr>,
                   Redirect))
      | No \<Rightarrow>
          (s\<lparr>pending_authorization := False, sms_sent_for_current_attempt := False\<rparr>, Redirect)
      | Other_action \<Rightarrow> (s, Redirect))"

section \<open>Start with face verification\<close>

text \<open>
  What one start attempt meets: whether the camera is open, the successive readings of
  \<^verbatim>\<open>IR_SENSOR.value\<close>, the file the capture would write, the camera observations, the
  encodings found in the captured image, and the removals that fail.
\<close>

record 'e attempt_env =
  camera_opened :: bool
  ir_values :: "bool list"
  new_file :: capture_file
  grabs :: "grab list"
  captured_encodings :: "'e list"
  remove_fails :: "capture_file \<Rightarrow> bool"

datatype wait = Detected | Cancelled

text \<open>
  \<^verbatim>\<open>while IR_SENSOR.value: if not face_recognition_active: return; sleep(0.1)\<close>. The result is
  \<open>None\<close> when the readings end while the loop still waits.
\<close>

fun ir_wait :: "bool \<Rightarrow> bool list \<Rightarrow> wait option" where
  "ir_wait active [] = None"
| "ir_wait active (ir_value # rest) =
     (if ir_value then (if \<not> active then Some Cancelled else ir_wait active rest)
      else Some Detected)"

text \<open>
  \<^verbatim>\<open>start_vehicle_with_face\<close> of f6.py (lines 371 to 423). On a match it removes the
  capture, starts the motor thread, clears \<^verbatim>\<open>vehicle_stopped\<close>, sends the message and
  clears \<^verbatim>\<open>sms_sent_for_current_attempt\<close>; it does not assign \<^verbatim>\<open>pending_authorization\<close>.
\<close>

definition start_vehicle_with_face_f6 ::
  "('e \<Rightarrow> 'e \<Rightarrow> real) \<Rightarrow> (string \<times> 'e) list \<Rightarrow> 'e attempt_env \<Rightarrow> state \<Rightarrow> state outcome option"
where
  "start_vehicle_with_face_f6 face_distance reference_encodings env s =
     (if \<not> face_recognition_active s then Some (Returned s)
      else if \<not> camera_opened env then Some Blocked
      else if \<not> vehicle_stopped s then Some (Returned s)
      else (case ir_wait (face_recognition_active s) (ir_values env) of
              None \<Rightarrow> None
            | Some Cancelled \<Rightarrow> Some (Returned s)
            | Some Detected \<Rightarrow>
                (case capture_image_with_face_f6 (remove_fails env) (camera_opened env)
                        (new_file env) (grabs env) (files s) of
                   None \<Rightarrow> None
                 | Some (Blocked, n, files1) \<Rightarrow> Some Blocked
                 | Some (Raised, n, files1) \<Rightarrow> Some Raised
                 | Some (Returned None, n, files1) \<Rightarrow> Some (Returned (s\<lparr>files := files1\<rparr>))
                 | Some (Returned (Some f), n, files1) \<Rightarrow>
                     (let s1 = s\<lparr>files := files1\<rparr>;
                          match_found =
                            fst (compare_faces_f6 face_distance reference_encodings
                                   (new_file env \<in> set files1) (captured_encodings env))
                      in if match_found then
                           (let s2 = s1\<lparr>files := os_remove (remove_fails env) (new_file env) files1\<rparr>;
                                s3 = start_motor_thread s2;
                                s4 = s3\<lparr>vehicle_stopped := False\<rparr>;
                                s5 = send_sms s4
                            in Some (Returned (s5\<lparr>sms_sent_for_current_attempt := False\<rparr>)))
                         else
                           (let s2 = (if \<not> sms_sent_for_current_attempt s1
                                      then (send_image_to_owner s1)\<lparr>sms_sent_for_current_attempt := True\<rparr>
                                      else s1)
                            in Some (Returned (s2\<lparr>pending_authorization := True\<rparr>)))))))"

text \<open>
  \<^verbatim>\<open>start_motor_web\<close> of f6.py (the route \<^verbatim>\<open>/start_vehicle\<close>): set
  \<^verbatim>\<open>face_recognition_active\<close>, then run \<^verbatim>\<open>start_vehicle_with_face\<close> on its thread.
\<close>

definition start_motor_web_f6 ::
  "('e \<Rightarrow> 'e \<Rightarrow> real) \<Rightarrow> (string \<times> 'e) list \<Rightarrow> 'e attempt_env \<Rightarrow> state \<Rightarrow> state outcome option"
where
  "start_motor_web_f6 face_distance reference_encodings env s =
     start_vehicle_with_face_f6 face_distance reference_encodings env
       (s\<lparr>face_recognition_active := True\<rparr>)"

text \<open>
  The requests that reach the handlers, and a run of the system over a list of them, each
  handled to its end before the next. A start that raises, blocks or is still waiting
  ends the run with that outcome.
\<close>

datatype 'e event = Start_vehicle "'e attempt_env" | Authorize "capture_file \<Rightarrow> bool" action

fun run_f6 ::
  "('e \<Rightarrow> 'e \<Rightarrow> real) \<Rightarrow> (string \<times> 'e) list \<Rightarrow> 'e event list \<Rightarrow> state \<Rightarrow> state outcome option"
where
  "run_f6 face_distance reference_encodings [] s = Some (Returned s)"
| "run_f6 face_distance reference_encodings (Start_vehicle env # events) s =
     (case start_motor_web_f6 face_distance reference_encodings env s of
        Some (Returned s1) \<Rightarrow> run_f6 face_distance reference_encodings events s1
      | other \<Rightarrow> other)"
| "run_f6 face_distance reference_encodings (Authorize fails action # events) s =
     run_f6 face_distance reference_encodings events (authorize_f6 fails action s)"

section \<open>Motor thread\<close>

text \<open>
  \<^verbatim>\<open>step_motor_continuous\<close> after its entry, as a machine over the points where the
  thread reads the shared flag or acts:
  \<^verbatim>\<open>while motor_running: for step in step_sequence: if not motor_running: break;
  set_step(*step); sleep(...)\<close>, then \<^verbatim>\<open>stop_motor()\<close>, which releases the coils with
  \<^verbatim>\<open>set_step(0, 0, 0, 0)\<close>. The flag belongs to the other threads too: each transition
  takes the value it reads as an argument.
\<close>

type_synonym pins = "nat \<times> nat \<times> nat \<times> nat"

definition step_sequence :: "pins list" where
  "step_sequence =
     [(1, 0, 0, 0), (1, 1, 0, 0), (0, 1, 0, 0), (0, 1, 1, 0),
      (0, 0, 1, 0), (0, 0, 1, 1), (0, 0, 0, 1), (1, 0, 0, 1)]"

datatype pc = While_test | For_test nat | Set_step nat | Sleep nat | Stop_motor | Released

text \<open>
  What the thread does to the outside: \<^verbatim>\<open>set_step(*step)\<close>, the call of \<^verbatim>\<open>sleep\<close> that
  follows it, and the \<^verbatim>\<open>set_step(0, 0, 0, 0)\<close> of \<^verbatim>\<open>stop_motor\<close>. The rest of
  \<^verbatim>\<open>stop_motor\<close> (flags, log, camera) is not part of this machine.
\<close>

datatype command = Step pins | Wait | Release

fun step_motor_continuous :: "bool \<Rightarrow> pc \<Rightarrow> pc \<times> command list" where
  "step_motor_continuous flag While_test = (if flag then For_test 0 else Stop_motor, [])"
| "step_motor_continuous flag (For_test i) =
     (if i < length step_sequence then (if \<not> flag then While_test else Set_step i)
      else While_test, [])"
| "step_motor_continuous flag (Set_step i) = (Sleep i, [Step (step_sequence ! i)])"
| "step_motor_continuous flag (Sleep i) = (For_test (Suc i), [Wait])"
| "step_motor_continuous flag Stop_motor = (Released, [Release])"
| "step_motor_continuous flag Released = (Released, [])"

text \<open>The thread's transitions under the successive values of the flag.\<close>

fun motor_run :: "bool list \<Rightarrow> pc \<Rightarrow> pc \<times> command list" where
  "motor_run [] p = (p, [])"
| "motor_run (flag # flags) p =
     (case step_motor_continuous flag p of
        (p1, out) \<Rightarrow> (case motor_run flags p1 of (p2, outs) \<Rightarrow> (p2, out @ outs)))"

fun is_step :: "command \<Rightarrow> bool" where
  "is_step (Step w) = True"
| "is_step c = False"

section \<open>Predicates of the properties\<close>

text \<open>
  An iteration that executes \<^verbatim>\<open>retry_count += 1\<close>: in f6.py a failed read or a failed
  save, in final2.py a failed read (with the camera open).
\<close>

definition counts_f6 :: "grab \<Rightarrow> bool" where
  "counts_f6 g \<longleftrightarrow> attempt_f6 g = Read_failed \<or> attempt_f6 g = Save_failed"

definition counts_final2 :: "grab \<Rightarrow> bool" where
  "counts_final2 g \<longleftrightarrow>
     is_opened g \<and> (case frame g of None \<Rightarrow> True | Some f \<Rightarrow> \<not> ret g \<or> shape_0 f * shape_1 f * 3 = 0)"

text \<open>
  The quality of a frame as the specification words it: bright enough, exactly one face,
  large enough and centred in both axes; and an eye line that was measured and is within
  15 degrees.
\<close>

definition face_ok :: "frame \<Rightarrow> bool" where
  "face_ok f \<longleftrightarrow>
     min_brightness \<le> brightness f \<and>
     (case face_locations f of
        [(top', right, bottom, left)] \<Rightarrow>
          min_face_size \<le> right - left \<and> min_face_size \<le> bottom - top' \<and>
          shape_1 f div 2 \<noteq> 0 \<and> shape_0 f div 2 \<noteq> 0 \<and>
          real_of_int \<bar>(left + right) div 2 - shape_1 f div 2\<bar> / real_of_int (shape_1 f div 2) \<le> 0.2 \<and>
          real_of_int \<bar>(top' + bottom) div 2 - shape_0 f div 2\<bar> / real_of_int (shape_0 f div 2) \<le> 0.2
      | _ \<Rightarrow> False)"

definition tilt_ok :: "frame \<Rightarrow> bool" where
  "tilt_ok f \<longleftrightarrow> (case face_landmarks f of [] \<Rightarrow> False | lm # _ \<Rightarrow> \<bar>eye_angle lm\<bar> \<le> 15)"

section \<open>Concrete inputs\<close>

text \<open>A one-dimensional stand-in for \<^verbatim>\<open>face_distance\<close>, for the concrete runs below.\<close>

definition abs_distance :: "real \<Rightarrow> real \<Rightarrow> real" where
  "abs_distance ref_encoding captured_encoding = \<bar>ref_encoding - captured_encoding\<bar>"

definition good_frame :: frame where
  "good_frame =
     \<lparr>shape_0 = 480, shape_1 = 640, brightness = 120,
      face_locations = [(100, 420, 380, 220)],
      face_landmarks = [\<lparr>left_eye_0 = (280, 200), right_eye_0 = (360, 200)\<rparr>]\<rparr>"

definition dark_frame :: frame where
  "dark_frame = good_frame\<lparr>brightness := 10\<rparr>"

definition crowd_frame :: frame where
  "crowd_frame =
     \<lparr>shape_0 = 480, shape_1 = 640, brightness = 120,
      face_locations = [(10, 60, 50, 20), (300, 630, 340, 590)],
      face_landmarks = []\<rparr>"

definition good_grab :: grab where
  "good_grab = \<lparr>is_opened = True, ret = True, frame = Some good_frame, path_exists_after_write = True\<rparr>"

definition dark_grab :: grab where
  "dark_grab = \<lparr>is_opened = True, ret = True, frame = Some dark_frame, path_exists_after_write = True\<rparr>"

definition crowd_grab :: grab where
  "crowd_grab = \<lparr>is_opened = True, ret = True, frame = Some crowd_frame, path_exists_after_write = True\<rparr>"

definition failed_grab :: grab where
  "failed_grab = \<lparr>is_opened = True, ret = False, frame = None, path_exists_after_write = False\<rparr>"

definition never_fails :: "capture_file \<Rightarrow> bool" where
  "never_fails f = False"

definition file_1 :: capture_file where "file_1 = \<lparr>stamp = 1, ctime = 1\<rparr>"
definition file_2 :: capture_file where "file_2 = \<lparr>stamp = 2, ctime = 2\<rparr>"
definition file_3 :: capture_file where "file_3 = \<lparr>stamp = 3, ctime = 3\<rparr>"

text \<open>
  One enrolled owner, and two start attempts at a working camera with a finger on the
  sensor at the second reading: a stranger, far from the owner's encoding, and the owner.
\<close>

definition owner_references :: "(string \<times> real) list" where
  "owner_references = [(''owner_face.png'', 0)]"

definition stranger_env :: "real attempt_env" where
  "stranger_env =
     \<lparr>camera_opened = True, ir_values = [True, False], new_file = file_1,
      grabs = [good_grab], captured_encodings = [0.9], remove_fails = never_fails\<rparr>"

definition owner_env :: "real attempt_env" where
  "owner_env =
     \<lparr>camera_opened = True, ir_values = [True, False], new_file = file_2,
      grabs = [good_grab], captured_encodings = [0.1], remove_fails = never_fails\<rparr>"

section \<open>Properties of the matcher\<close>

lemma compare_loop_found:
  "fst (compare_loop test fd refs c) \<longleftrightarrow> (\<exists>r \<in> set refs. test (fd (snd r) c))"
  by (induction refs) (auto split: prod.splits)

lemma compare_loop_examined:
  "snd (compare_loop test fd refs c) =
     map fst (take (Suc (length (takeWhile (\<lambda>r. \<not> test (fd (snd r) c)) refs))) refs)"
  by (induction refs) (auto split: prod.splits)

text \<open>
  Over the reals the two-condition test of f6.py holds exactly when the distance is below
  0.2.
\<close>

lemma strong_match_f6_real_threshold: "strong_match_f6 d \<longleftrightarrow> d < 0.2"
  by (auto simp: strong_match_f6_def confidence_def)



lemma compare_loop_True:
  "compare_loop test fd refs c = (True, seen) \<Longrightarrow>
     \<exists>p r. (p, r) \<in> set refs \<and> last seen = p \<and> test (fd r c)"
proof (induction refs arbitrary: seen)
  case Nil
  then show ?case by simp
next
  case (Cons a refs)
  obtain p r where a: "a = (p, r)" by (cases a)
  show ?case
  proof (cases "test (fd r c)")
    case True
    with Cons.prems a show ?thesis by auto
  next
    case False
    with Cons.prems a obtain seen' where s: "compare_loop test fd refs c = (True, seen')" "seen = p # seen'"
      by (auto split: prod.splits)
    from Cons.IH[OF s(1)] obtain p' r' where "(p', r') \<in> set refs" "last seen' = p'" "test (fd r' c)"
      by blast
    moreover from this s(1) have "seen' \<noteq> []" by (cases refs) (auto split: prod.splits if_splits)
    ultimately show ?thesis using s(2) by auto
  qed
qed



text \<open>
  C3, as amended. A match is declared on a profile only when both conditions hold for it:
  in f6.py a distance below 0.4 and a confidence above 80, in 2.py a distance below 0.7
  and a confidence above 50. A capture at distance 0.3 from a reference (confidence 70)
  is a match in 2.py and is not one in f6.py.
\<close>

theorem compare_faces_double_gate:
  "(compare_faces_f6 fd refs ex caps = (True, seen) \<longrightarrow>
      (\<exists>c cs p r. caps = c # cs \<and> (p, r) \<in> set refs \<and> last seen = p \<and>
         fd r c < 0.4 \<and> confidence (fd r c) > 80)) \<and>
   (compare_faces_2 fd refs ex caps = (True, seen) \<longrightarrow>
      (\<exists>c cs p r. caps = c # cs \<and> (p, r) \<in> set refs \<and> last seen = p \<and>
         fd r c < 0.7 \<and> confidence (fd r c) > 50)) \<and>
   ((p, r) \<in> set refs \<and> fd r c = 0.3 \<longrightarrow> fst (compare_faces_2 fd refs True (c # cs))) \<and>
   ((\<forall>b \<in> set refs. fd (snd b) c = 0.3) \<longrightarrow> \<not> fst (compare_faces_f6 fd refs True (c # cs)))"
proof (intro conjI impI)
  assume "compare_faces_f6 fd refs ex caps = (True, seen)"
  then obtain c cs where "caps = c # cs" "compare_loop strong_match_f6 fd refs c = (True, seen)"
    by (auto simp: compare_faces_def split: if_splits list.splits)
  with compare_loop_True[OF this(2)]
  show "\<exists>c cs p r. caps = c # cs \<and> (p, r) \<in> set refs \<and> last seen = p \<and>
         fd r c < 0.4 \<and> confidence (fd r c) > 80"
    by (auto simp: strong_match_f6_def)
next
  assume "compare_faces_2 fd refs ex caps = (True, seen)"
  then obtain c cs where "caps = c # cs" "compare_loop strong_match_2 fd refs c = (True, seen)"
    by (auto simp: compare_faces_def split: if_splits list.splits)
  with compare_loop_True[OF this(2)]
  show "\<exists>c cs p r. caps = c # cs \<and> (p, r) \<in> set refs \<and> last seen = p \<and>
         fd r c < 0.7 \<and> confidence (fd r c) > 50"
    by (auto simp: strong_match_2_def)
next
  assume "(p, r) \<in> set refs \<and> fd r c = 0.3"
  then have "\<exists>x \<in> set refs. strong_match_2 (fd (snd x) c)"
    by (intro bexI[of _ "(p, r)"]) (simp_all add: strong_match_2_def confidence_def)
  then show "fst (compare_faces_2 fd refs True (c # cs))"
    by (simp add: compare_faces_def compare_loop_found)
next
  assume "\<forall>b \<in> set refs. fd (snd b) c = 0.3"
  then have "\<not> (\<exists>x \<in> set refs. strong_match_f6 (fd (snd x) c))"
    by (auto simp: strong_match_f6_def confidence_def)
  then show "\<not> fst (compare_faces_f6 fd refs True (c # cs))"
    by (simp add: compare_faces_def compare_loop_found)
qed

theorem compare_faces_double_gate_witness:
  "compare_faces_f6 abs_distance [(''A'', 0.5), (''B'', 0.15)] True [0] = (True, [''A'', ''B'']) \<and>
   abs_distance 0.15 0 < 0.4 \<and> confidence (abs_distance 0.15 0) > 80 \<and>
   compare_faces_2 abs_distance [(''A'', 0.8), (''B'', 0.3)] True [0] = (True, [''A'', ''B'']) \<and>
   abs_distance 0.3 0 < 0.7 \<and> confidence (abs_distance 0.3 0) > 50 \<and>
   \<not> fst (compare_faces_f6 abs_distance [(''A'', 0.3)] True [0])"
proof -
  note t = compare_faces_double_gate[of abs_distance _ True "[0]" _ "''B''" "0.3" 0 "[]"]
  have a: "compare_faces_f6 abs_distance [(''A'', 0.5), (''B'', 0.15)] True [0] = (True, [''A'', ''B''])"
    by (simp add: compare_faces_def strong_match_f6_def confidence_def abs_distance_def)
  have b: "compare_faces_2 abs_distance [(''A'', 0.8), (''B'', 0.3)] True [0] = (True, [''A'', ''B''])"
    by (simp add: compare_faces_def strong_match_2_def confidence_def abs_distance_def)
  from t[of "[(''A'', 0.5), (''B'', 0.15)]" "[''A'', ''B'']", THEN conjunct1, rule_format, OF a]
  have "abs_distance 0.15 0 < 0.4 \<and> confidence (abs_distance 0.15 0) > 80"
    by (auto simp: abs_distance_def confidence_def)
  moreover
  from t[of "[(''A'', 0.8), (''B'', 0.3)]" "[''A'', ''B'']", THEN conjunct2, THEN conjunct1, rule_format, OF b]
  have "abs_distance 0.3 0 < 0.7 \<and> confidence (abs_distance 0.3 0) > 50"
    by (auto simp: abs_distance_def confidence_def)
  moreover
  have "\<not> fst (compare_faces_f6 abs_distance [(''A'', 0.3)] True [0])"
    by (rule t[of "[(''A'', 0.3)]", THEN conjunct2, THEN conjunct2, THEN conjunct2, rule_format])
       (simp add: abs_distance_def)
  ultimately show ?thesis using a b by simp
qed

text \<open>
  C3 as stated fails on f6.py: at distance 0.3, below the threshold 0.4 and with
  confidence 70, no match is declared, since f6.py asks for a confidence above 80.
\<close>

theorem compare_faces_distance_03_counterexample:
  "abs_distance 0.3 0 = 0.3 \<and> abs_distance 0.3 0 < 0.4 \<and> confidence (abs_distance 0.3 0) = 70 \<and>
   compare_faces_f6 abs_distance [(''A'', 0.3), (''B'', 0.9)] True [0] = (False, [''A'', ''B''])"
  by (simp add: compare_faces_def strong_match_f6_def confidence_def abs_distance_def)


section \<open>Properties of the test in float64\<close>

lemma round_half_even_le: "q \<le> of_int N \<Longrightarrow> round_half_even q \<le> N"
proof -
  assume a: "q \<le> of_int N"
  show ?thesis
  proof (cases "q = of_int N")
    case True
    then show ?thesis by (simp add: round_half_even_def)
  next
    case False
    with a have "q < of_int N" by simp
    then have "\<lfloor>q\<rfloor> < N" by (simp add: floor_less_iff)
    then show ?thesis by (auto simp: round_half_even_def Let_def)
  qed
qed

lemma round_half_even_ge: "of_int N \<le> q \<Longrightarrow> N \<le> round_half_even q"
proof -
  assume "of_int N \<le> q"
  then have "N \<le> \<lfloor>q\<rfloor>" by (simp add: le_floor_iff)
  then show ?thesis by (auto simp: round_half_even_def Let_def)
qed

lemma round_half_even_down:
  "of_int N \<le> q \<Longrightarrow> q < of_int N + 1 / 2 \<or> (q = of_int N + 1 / 2 \<and> even N) \<Longrightarrow>
     round_half_even q = N"
proof -
  assume a: "of_int N \<le> q" and b: "q < of_int N + 1 / 2 \<or> (q = of_int N + 1 / 2 \<and> even N)"
  then have "\<lfloor>q\<rfloor> = N" by (intro floor_unique) auto
  with b show ?thesis by (auto simp: round_half_even_def Let_def)
qed

lemma round_half_even_up:
  "of_int N + 1 / 2 < q \<Longrightarrow> q \<le> of_int N + 1 \<Longrightarrow> round_half_even q = N + 1"
proof -
  assume a: "of_int N + 1 / 2 < q" and b: "q \<le> of_int N + 1"
  show ?thesis
  proof (cases "q = of_int N + 1")
    case True
    then have "q = of_int (N + 1)" by simp
    then show ?thesis unfolding round_half_even_def Let_def by (simp only: floor_of_int) simp
  next
    case False
    with b have "q < of_int N + 1" by simp
    with a have "\<lfloor>q\<rfloor> = N" by (intro floor_unique) auto
    with a show ?thesis by (auto simp: round_half_even_def Let_def)
  qed
qed

lemma binade:
  assumes "0 < x"
  shows "2 powi \<lfloor>log 2 x\<rfloor> \<le> x" and "x < 2 powi (\<lfloor>log 2 x\<rfloor> + 1)"
proof -
  have "2 powr real_of_int \<lfloor>log 2 x\<rfloor> \<le> x \<and> x < 2 powr real_of_int (\<lfloor>log 2 x\<rfloor> + 1)"
    using floor_log_eq_powr_iff[of x 2 "\<lfloor>log 2 x\<rfloor>"] assms by simp
  then show "2 powi \<lfloor>log 2 x\<rfloor> \<le> x" and "x < 2 powi (\<lfloor>log 2 x\<rfloor> + 1)"
    using powr_real_of_int'[of 2 "\<lfloor>log 2 x\<rfloor>"] powr_real_of_int'[of 2 "\<lfloor>log 2 x\<rfloor> + 1"]
    by simp_all
qed

lemma floor_log2_eq:
  assumes "2 powi k \<le> x" "x < 2 powi (k + 1)"
  shows "\<lfloor>log 2 x\<rfloor> = k"
proof -
  have pos: "0 < x" using assms(1) zero_less_power_int[of "2::real" k] by linarith
  have "2 powr real_of_int k \<le> x \<and> x < 2 powr (real_of_int k + 1)"
    using assms powr_real_of_int'[of 2 k] powr_real_of_int'[of 2 "k + 1"] by simp
  then show ?thesis using floor_log_eq_powr_iff[of x 2 k] pos by simp
qed

lemma float64_eq:
  assumes "2 powi k \<le> \<bar>x\<bar>" "\<bar>x\<bar> < 2 powi (k + 1)"
  shows "float64 x = of_int (round_half_even (x / 2 powi (k - 52))) * 2 powi (k - 52)"
proof -
  have "0 < \<bar>x\<bar>" using assms(1) zero_less_power_int[of "2::real" k] by linarith
  then have "x \<noteq> 0" by auto
  moreover have "ulp_exponent x = k - 52"
    unfolding ulp_exponent_def using floor_log2_eq[OF assms] by simp
  ultimately show ?thesis by (simp add: float64_def)
qed


lemma ulp_exponent_mono: "0 < x \<Longrightarrow> x \<le> y \<Longrightarrow> ulp_exponent x \<le> ulp_exponent y"
  unfolding ulp_exponent_def by (simp add: floor_mono log_mono)

lemma powi_split: "a \<le> b \<Longrightarrow> (2::real) powi b = 2 powi a * 2 ^ nat (b - a)"
proof -
  assume "a \<le> b"
  then have "b = a + int (nat (b - a))" by simp
  then have "(2::real) powi b = 2 powi (a + int (nat (b - a)))" by simp
  also have "\<dots> = 2 powi a * 2 powi int (nat (b - a))" by (rule power_int_add) simp
  also have "\<dots> = 2 powi a * 2 ^ nat (b - a)" by (simp only: power_int_of_nat)
  finally show ?thesis .
qed

lemma float64_nonpos: "x \<le> 0 \<Longrightarrow> float64 x \<le> 0"
proof (cases "x = 0")
  case True
  then show ?thesis by (simp add: float64_def)
next
  case False
  assume "x \<le> 0"
  have p: "0 < (2::real) powi ulp_exponent x" by simp
  with \<open>x \<le> 0\<close> have "x / 2 powi ulp_exponent x \<le> of_int 0"
    by (simp add: divide_nonpos_pos)
  then have "round_half_even (x / 2 powi ulp_exponent x) \<le> 0" by (rule round_half_even_le)
  then have "of_int (round_half_even (x / 2 powi ulp_exponent x)) * 2 powi ulp_exponent x \<le> (0::real)"
    using p by (simp add: mult_le_0_iff)
  with False show ?thesis by (simp add: float64_def)
qed

lemma float64_le:
  assumes "0 < c" "ulp_exponent c = ec" "c = of_int m * 2 powi ec" "x \<le> c"
  shows "float64 x \<le> c"
proof (cases "0 < x")
  case False
  then have "float64 x \<le> 0" by (intro float64_nonpos) simp
  with assms(1) show ?thesis by simp
next
  case True
  let ?ex = "ulp_exponent x"
  have le: "?ex \<le> ec" using ulp_exponent_mono[OF True assms(4)] assms(2) by simp
  have p: "0 < (2::real) powi ?ex" by simp
  have "c = of_int m * (2 powi ?ex * 2 ^ nat (ec - ?ex))"
    unfolding assms(3) by (simp only: powi_split[OF le])
  then have c: "c = of_int (m * 2 ^ nat (ec - ?ex)) * 2 powi ?ex"
    by (simp add: mult_ac)
  have "x / 2 powi ?ex \<le> c / 2 powi ?ex" using assms(4) p by (simp add: divide_right_mono)
  also have "c / 2 powi ?ex = of_int (m * 2 ^ nat (ec - ?ex))"
    using p by (subst c) simp
  finally have "round_half_even (x / 2 powi ?ex) \<le> m * 2 ^ nat (ec - ?ex)"
    by (rule round_half_even_le)
  then have "real_of_int (round_half_even (x / 2 powi ?ex)) \<le> of_int (m * 2 ^ nat (ec - ?ex))"
    by (simp only: of_int_le_iff)
  then have "real_of_int (round_half_even (x / 2 powi ?ex)) * 2 powi ?ex
      \<le> real_of_int (m * 2 ^ nat (ec - ?ex)) * 2 powi ?ex"
    using p by (simp only: mult_le_cancel_right_pos)
  also have "\<dots> = c" by (rule c[symmetric])
  finally show ?thesis using True by (simp add: float64_def)
qed

lemma float64_ge:
  assumes "0 < c" "ulp_exponent c = ec" "c = of_int m * 2 powi ec" "c \<le> x"
  shows "c \<le> float64 x"
proof -
  let ?ex = "ulp_exponent x"
  from assms have x: "0 < x" by simp
  have le: "ec \<le> ?ex" using ulp_exponent_mono[OF assms(1,4)] assms(2) by simp
  have p: "0 < (2::real) powi ?ex" by simp
  have fx: "float64 x = of_int (round_half_even (x / 2 powi ?ex)) * 2 powi ?ex"
    using x by (simp add: float64_def)
  show ?thesis
  proof (cases "?ex = ec")
    case True
    have "c / 2 powi ?ex = of_int m" unfolding assms(3) True by simp
    moreover have "c / 2 powi ?ex \<le> x / 2 powi ?ex" using assms(4) p by (simp add: divide_right_mono)
    ultimately have "m \<le> round_half_even (x / 2 powi ?ex)" by (intro round_half_even_ge) simp
    then have "real_of_int m \<le> of_int (round_half_even (x / 2 powi ?ex))"
      by (simp only: of_int_le_iff)
    then have "real_of_int m * 2 powi ?ex \<le> real_of_int (round_half_even (x / 2 powi ?ex)) * 2 powi ?ex"
      using p by (simp only: mult_le_cancel_right_pos)
    then show ?thesis unfolding fx assms(3) True .
  next
    case False
    with le have lt: "ec + 1 \<le> ?ex" by simp
    have bx: "2 powi (?ex + 52) \<le> x"
      using binade(1)[OF x] x by (simp add: ulp_exponent_def)
    have "c < 2 powi (\<lfloor>log 2 c\<rfloor> + 1)" by (rule binade(2)[OF assms(1)])
    moreover have "\<lfloor>log 2 c\<rfloor> + 1 = ec + 53"
      using assms(1,2) by (simp add: ulp_exponent_def)
    ultimately have bc: "c < 2 powi (ec + 53)" by simp
    have e: "(2::real) powi (?ex + 52) = 2 powi ?ex * 2 powi 52" by (rule power_int_add) simp
    then have "of_int (2 ^ 52) \<le> x / 2 powi ?ex"
      using bx p by (simp add: pos_le_divide_eq mult.commute)
    then have "2 ^ 52 \<le> round_half_even (x / 2 powi ?ex)" by (rule round_half_even_ge)
    then have "real_of_int (2 ^ 52) \<le> of_int (round_half_even (x / 2 powi ?ex))"
      by (simp only: of_int_le_iff)
    then have "real_of_int (2 ^ 52) * 2 powi ?ex \<le> float64 x"
      unfolding fx using p by (simp only: mult_le_cancel_right_pos)
    moreover have "real_of_int (2 ^ 52) * 2 powi ?ex = (2::real) powi (?ex + 52)"
      unfolding e by simp
    moreover have "(2::real) powi (ec + 53) \<le> 2 powi (?ex + 52)"
      using lt by (intro power_int_increasing) simp_all
    ultimately show ?thesis using bc by linarith
  qed
qed


lemma ulp_exponent_eq:
  "2 powi k \<le> \<bar>x\<bar> \<Longrightarrow> \<bar>x\<bar> < 2 powi (k + 1) \<Longrightarrow> ulp_exponent x = k - 52"
  unfolding ulp_exponent_def using floor_log2_eq[of k "\<bar>x\<bar>"] by simp

lemma float64_04: "float64 0.4 = 7205759403792794 / 2 ^ 54"
proof -
  have "float64 0.4 = of_int (round_half_even (0.4 / 2 powi (- 2 - 52))) * 2 powi (- 2 - 52)"
    by (rule float64_eq) simp_all
  moreover have "round_half_even (0.4 / 2 powi (- 2 - 52)) = 7205759403792793 + 1"
    by (rule round_half_even_up) simp_all
  ultimately show ?thesis by simp
qed

lemma float64_one_minus_le:
  assumes "7205759403792790 / 2 ^ 55 \<le> d"
  shows "float64 (1 - d) \<le> 7205759403792794 / 2 ^ 53"
proof (cases "1 - d \<le> 7205759403792794 / 2 ^ 53")
  case True
  show ?thesis
  proof (rule float64_le[where ec = "- 1 - 52" and m = 7205759403792794])
    show "ulp_exponent (7205759403792794 / 2 ^ 53) = - 1 - 52"
      by (rule ulp_exponent_eq) simp_all
  qed (use True in simp_all)
next
  case False
  then have lo: "7205759403792794 / 2 ^ 53 < 1 - d" by simp
  from assms have hi: "1 - d \<le> 7205759403792794 / 2 ^ 53 + 1 / 2 ^ 54" by simp
  have "float64 (1 - d) = of_int (round_half_even ((1 - d) / 2 powi (- 1 - 52))) * 2 powi (- 1 - 52)"
    using lo hi by (intro float64_eq) simp_all
  moreover have "round_half_even ((1 - d) / 2 powi (- 1 - 52)) = 7205759403792794"
    using lo hi by (intro round_half_even_down) (auto simp: field_simps)
  ultimately show ?thesis by simp
qed

lemma confidence_float64_le:
  assumes "7205759403792790 / 2 ^ 55 \<le> d"
  shows "confidence_float64 d \<le> 80"
proof -
  let ?y = "float64 (1 - d) * 100"
  from float64_one_minus_le[OF assms] have hi: "?y \<le> 720575940379279400 / 2 ^ 53" by simp
  show ?thesis
  proof (cases "?y \<le> 80")
    case True
    show ?thesis unfolding confidence_float64_def
    proof (rule float64_le[where ec = "6 - 52" and m = 5629499534213120])
      show "ulp_exponent 80 = 6 - 52"
        by (rule ulp_exponent_eq) simp_all
    qed (use True in simp_all)
  next
    case False
    then have lo: "80 < ?y" by simp
    have "float64 ?y = of_int (round_half_even (?y / 2 powi (6 - 52))) * 2 powi (6 - 52)"
      using lo hi by (intro float64_eq) simp_all
    moreover have "round_half_even (?y / 2 powi (6 - 52)) = 5629499534213120"
      using lo hi by (intro round_half_even_down) (auto simp: field_simps)
    ultimately show ?thesis by (simp add: confidence_float64_def)
  qed
qed

lemma float64_one_minus_ge:
  assumes "d \<le> 7205759403792789 / 2 ^ 55"
  shows "7205759403792795 / 2 ^ 53 \<le> float64 (1 - d)"
proof (cases "7205759403792795 / 2 ^ 53 \<le> 1 - d")
  case True
  show ?thesis
  proof (rule float64_ge[where ec = "- 1 - 52" and m = 7205759403792795])
    show "ulp_exponent (7205759403792795 / 2 ^ 53) = - 1 - 52"
      by (rule ulp_exponent_eq) simp_all
  qed (use True in simp_all)
next
  case False
  then have hi: "1 - d < 7205759403792795 / 2 ^ 53" by simp
  from assms have lo: "7205759403792794 / 2 ^ 53 + 3 / 2 ^ 55 \<le> 1 - d" by simp
  have "float64 (1 - d) = of_int (round_half_even ((1 - d) / 2 powi (- 1 - 52))) * 2 powi (- 1 - 52)"
    using lo hi by (intro float64_eq) simp_all
  moreover have "round_half_even ((1 - d) / 2 powi (- 1 - 52)) = 7205759403792794 + 1"
    using lo hi by (intro round_half_even_up) (auto simp: field_simps)
  ultimately show ?thesis by simp
qed

lemma confidence_float64_gt:
  assumes "d \<le> 7205759403792789 / 2 ^ 55"
  shows "80 < confidence_float64 d"
proof -
  let ?y = "float64 (1 - d) * 100"
  from float64_one_minus_ge[OF assms] have lo: "5629499534213121 / 2 ^ 46 \<le> ?y" by simp
  have "5629499534213121 / 2 ^ 46 \<le> float64 ?y"
  proof (rule float64_ge[where ec = "6 - 52" and m = 5629499534213121])
    show "ulp_exponent (5629499534213121 / 2 ^ 46) = 6 - 52"
      by (rule ulp_exponent_eq) simp_all
  qed (use lo in simp_all)
  then show ?thesis by (simp add: confidence_float64_def)
qed

lemma float64_double_below_02:
  "float64 (7205759403792793 / 2 ^ 55) = 7205759403792793 / 2 ^ 55"
proof -
  have "float64 (7205759403792793 / 2 ^ 55) =
      of_int (round_half_even (7205759403792793 / 2 ^ 55 / 2 powi (- 3 - 52))) * 2 powi (- 3 - 52)"
    by (rule float64_eq) simp_all
  moreover have "round_half_even (7205759403792793 / 2 ^ 55 / 2 powi (- 3 - 52)) = 7205759403792793"
    by (rule round_half_even_down) simp_all
  ultimately show ?thesis by simp
qed

lemma confidence_float64_below_02: "confidence_float64 (7205759403792793 / 2 ^ 55) = 80"
proof -
  let ?x = "1 - 7205759403792793 / 2 ^ 55 :: real"
  have "float64 ?x = of_int (round_half_even (?x / 2 powi (- 1 - 52))) * 2 powi (- 1 - 52)"
    by (rule float64_eq) simp_all
  moreover have "round_half_even (?x / 2 powi (- 1 - 52)) = 7205759403792793 + 1"
    by (rule round_half_even_up) simp_all
  ultimately have x: "float64 ?x = 7205759403792794 / 2 ^ 53" by simp
  let ?y = "7205759403792794 / 2 ^ 53 * 100 :: real"
  have "float64 ?y = of_int (round_half_even (?y / 2 powi (6 - 52))) * 2 powi (6 - 52)"
    by (rule float64_eq) simp_all
  moreover have "round_half_even (?y / 2 powi (6 - 52)) = 5629499534213120"
    by (rule round_half_even_down) simp_all
  ultimately have y: "float64 ?y = 80" by simp
  show ?thesis unfolding confidence_float64_def x by (rule y)
qed

text \<open>
  Rounding only takes matches away: a distance that passes the test in float64 passes it
  over the reals.
\<close>

lemma strong_match_f6_float64_real: "strong_match_f6_float64 d \<Longrightarrow> strong_match_f6 d"
proof -
  assume "strong_match_f6_float64 d"
  then have c: "confidence_float64 d > 80" by (simp add: strong_match_f6_float64_def)
  have "d < 7205759403792790 / 2 ^ 55"
  proof (rule ccontr)
    assume "\<not> d < 7205759403792790 / 2 ^ 55"
    then have "7205759403792790 / 2 ^ 55 \<le> d" by (simp only: not_less)
    from confidence_float64_le[OF this] c show False by simp
  qed
  then have "d < 0.2" by simp
  then show ?thesis by (simp add: strong_match_f6_real_threshold)
qed

text \<open>
  C10, as amended. The test of f6.py, evaluated in float64 as the code evaluates it, holds
  exactly when its confidence conjunct holds: the distance conjunct is redundant and the
  double gate is one threshold on the distance. That threshold is not 0.2: the test holds
  for every distance up to the double 0.19999999999999987 and fails from the next double,
  0.1999999999999999, on.
\<close>

theorem strong_match_f6_float64_threshold:
  "(strong_match_f6_float64 d \<longleftrightarrow> confidence_float64 d > 80) \<and>
   (d \<le> 7205759403792789 / 2 ^ 55 \<longrightarrow> strong_match_f6_float64 d) \<and>
   (7205759403792790 / 2 ^ 55 \<le> d \<longrightarrow> \<not> strong_match_f6_float64 d)"
proof (intro conjI impI)
  show "strong_match_f6_float64 d \<longleftrightarrow> confidence_float64 d > 80"
  proof
    assume "confidence_float64 d > 80"
    have "d < 7205759403792790 / 2 ^ 55"
    proof (rule ccontr)
      assume "\<not> d < 7205759403792790 / 2 ^ 55"
      then have "7205759403792790 / 2 ^ 55 \<le> d" by (simp only: not_less)
      from confidence_float64_le[OF this] \<open>confidence_float64 d > 80\<close> show False by simp
    qed
    then have "d < float64 0.4" unfolding float64_04 by simp
    with \<open>confidence_float64 d > 80\<close> show "strong_match_f6_float64 d"
      by (simp add: strong_match_f6_float64_def)
  qed (simp add: strong_match_f6_float64_def)
next
  assume a: "d \<le> 7205759403792789 / 2 ^ 55"
  then have "d < float64 0.4" unfolding float64_04 by simp
  with confidence_float64_gt[OF a] show "strong_match_f6_float64 d"
    by (simp add: strong_match_f6_float64_def)
next
  assume "7205759403792790 / 2 ^ 55 \<le> d"
  from confidence_float64_le[OF this] show "\<not> strong_match_f6_float64 d"
    by (simp add: strong_match_f6_float64_def)
qed


theorem strong_match_f6_float64_threshold_witness:
  "(1 / 8 :: real) \<le> 7205759403792789 / 2 ^ 55 \<and> strong_match_f6_float64 (1 / 8) \<and>
   confidence_float64 (1 / 8) > 80 \<and>
   (7205759403792790 / 2 ^ 55 :: real) \<le> 7205759403792794 / 2 ^ 55 \<and>
   \<not> strong_match_f6_float64 (7205759403792794 / 2 ^ 55)"
proof -
  have a: "(1 / 8 :: real) \<le> 7205759403792789 / 2 ^ 55" by simp
  have b: "(7205759403792790 / 2 ^ 55 :: real) \<le> 7205759403792794 / 2 ^ 55" by simp
  note t1 = strong_match_f6_float64_threshold[of "1 / 8"]
  note t2 = strong_match_f6_float64_threshold[of "7205759403792794 / 2 ^ 55"]
  from t1 a have "strong_match_f6_float64 (1 / 8)" by blast
  moreover from t1 this have "confidence_float64 (1 / 8) > 80" by blast
  moreover from t2 b have "\<not> strong_match_f6_float64 (7205759403792794 / 2 ^ 55)" by blast
  ultimately show ?thesis using a b by blast
qed

text \<open>
  C10 as stated fails: the double just below 0.2, 0.19999999999999998, is a distance
  below 0.2 whose confidence evaluates to exactly 80.0, so the test of f6.py rejects it.
\<close>

theorem strong_match_f6_below_02_counterexample:
  "(7205759403792793 / 2 ^ 55 :: real) < 0.2 \<and>
   float64 (7205759403792793 / 2 ^ 55) = 7205759403792793 / 2 ^ 55 \<and>
   confidence_float64 (7205759403792793 / 2 ^ 55) = 80 \<and>
   \<not> strong_match_f6_float64 (7205759403792793 / 2 ^ 55)"
proof (intro conjI)
  show "(7205759403792793 / 2 ^ 55 :: real) < 0.2" by simp
  show "float64 (7205759403792793 / 2 ^ 55) = 7205759403792793 / 2 ^ 55"
    by (rule float64_double_below_02)
  show "confidence_float64 (7205759403792793 / 2 ^ 55) = 80"
    by (rule confidence_float64_below_02)
  show "\<not> strong_match_f6_float64 (7205759403792793 / 2 ^ 55)"
    unfolding strong_match_f6_float64_def confidence_float64_below_02 by simp
qed

section \<open>Properties of the capture loop\<close>

lemma attempt_f6_good: "attempt_f6 good_grab = Captured good_frame"
  by (simp add: attempt_f6_def good_grab_def good_frame_def min_brightness_def min_face_size_def
      eye_angle_def arctan2_def)

lemma attempt_f6_dark: "attempt_f6 dark_grab = Too_dark"
  by (simp add: attempt_f6_def dark_grab_def dark_frame_def good_frame_def min_brightness_def)

lemma attempt_f6_failed: "attempt_f6 failed_grab = Read_failed"
  by (simp add: attempt_f6_def failed_grab_def)

lemma capture_loop_f6_dark: "capture_loop_f6 (replicate k dark_grab @ gs) rc n = 
   (if rc < max_retries_f6 then capture_loop_f6 gs rc (n + k) else Some (Returned None, n))"
  by (induction k arbitrary: n) (cases gs; simp add: attempt_f6_dark)+

lemma capture_loop_f6_count:
  "capture_loop_f6 gs rc n = Some (out, m) \<Longrightarrow> rc \<le> max_retries_f6 \<Longrightarrow>
     \<exists>k. m = n + k \<and> k \<le> length gs \<and>
       rc + length (filter counts_f6 (take k gs)) \<le> max_retries_f6 \<and>
       (out = Returned None \<longleftrightarrow> rc + length (filter counts_f6 (take k gs)) = max_retries_f6)"
proof (induction gs arbitrary: rc n)
  case Nil
  then show ?case by (auto split: if_splits)
next
  case (Cons g gs)
  show ?case
  proof (cases "rc < max_retries_f6")
    case False
    with Cons.prems show ?thesis by auto
  next
    case True
    show ?thesis
    proof (cases "counts_f6 g")
      case c: True
      with True Cons.prems have "capture_loop_f6 gs (rc + 1) (n + 1) = Some (out, m)"
        by (auto simp: counts_f6_def)
      from Cons.IH[OF this] True obtain k where
        "m = n + 1 + k" "k \<le> length gs"
        "rc + 1 + length (filter counts_f6 (take k gs)) \<le> max_retries_f6"
        "out = Returned None \<longleftrightarrow> rc + 1 + length (filter counts_f6 (take k gs)) = max_retries_f6"
        by auto
      with c show ?thesis by (intro exI[of _ "Suc k"]) simp
    next
      case c: False
      show ?thesis
      proof (cases "\<exists>f. attempt_f6 g = Captured f \<or> attempt_f6 g = Zero_division")
        case True
        with \<open>rc < max_retries_f6\<close> Cons.prems c have "m = n + 1" "out \<noteq> Returned None"
          by (auto split: verdict.splits)
        with \<open>rc < max_retries_f6\<close> c show ?thesis by (intro exI[of _ "Suc 0"]) simp
      next
        case False
        with \<open>rc < max_retries_f6\<close> Cons.prems c have "capture_loop_f6 gs rc (n + 1) = Some (out, m)"
          by (auto simp: counts_f6_def split: verdict.splits)
        from Cons.IH[OF this] Cons.prems(2) obtain k where
          "m = n + 1 + k" "k \<le> length gs"
          "rc + length (filter counts_f6 (take k gs)) \<le> max_retries_f6"
          "out = Returned None \<longleftrightarrow> rc + length (filter counts_f6 (take k gs)) = max_retries_f6"
          by auto
        with c show ?thesis by (intro exI[of _ "Suc k"]) simp
      qed
    qed
  qed
qed

lemma capture_loop_f6_returns:
  "max_retries_f6 \<le> rc + length (filter counts_f6 gs) \<Longrightarrow> capture_loop_f6 gs rc n \<noteq> None"
proof (induction gs arbitrary: rc n)
  case Nil
  then show ?case by simp
next
  case (Cons g gs)
  show ?case
  proof (cases "rc < max_retries_f6")
    case False
    then show ?thesis by simp
  next
    case True
    show ?thesis
    proof (cases "counts_f6 g")
      case c: True
      with Cons.prems have "max_retries_f6 \<le> (rc + 1) + length (filter counts_f6 gs)" by simp
      from Cons.IH[OF this] c True show ?thesis by (auto simp: counts_f6_def)
    next
      case c: False
      with Cons.prems have "max_retries_f6 \<le> rc + length (filter counts_f6 gs)" by simp
      from Cons.IH[OF this] c True show ?thesis
        by (auto simp: counts_f6_def split: verdict.splits)
    qed
  qed
qed


lemma capture_loop_final2_count:
  "capture_loop_final2 gs rc n = Some (out, m) \<Longrightarrow> rc \<le> max_retries_final2 \<Longrightarrow>
     \<exists>k. m = n + k \<and> k \<le> length gs \<and>
       rc + length (filter counts_final2 (take k gs)) \<le> max_retries_final2 \<and>
       (out = Returned None \<longleftrightarrow> rc + length (filter counts_final2 (take k gs)) = max_retries_final2)"
proof (induction gs arbitrary: rc n)
  case Nil
  then show ?case by (auto split: if_splits)
next
  case (Cons g gs)
  show ?case
  proof (cases "rc < max_retries_final2")
    case False
    with Cons.prems show ?thesis by auto
  next
    case True
    show ?thesis
    proof (cases "counts_final2 g")
      case c: True
      with True Cons.prems have "capture_loop_final2 gs (rc + 1) (n + 1) = Some (out, m)"
        by (auto simp: counts_final2_def split: option.splits if_splits)
      from Cons.IH[OF this] True obtain k where
        "m = n + 1 + k" "k \<le> length gs"
        "rc + 1 + length (filter counts_final2 (take k gs)) \<le> max_retries_final2"
        "out = Returned None \<longleftrightarrow> rc + 1 + length (filter counts_final2 (take k gs)) = max_retries_final2"
        by auto
      with c show ?thesis by (intro exI[of _ "Suc k"]) simp
    next
      case c: False
      show ?thesis
      proof (cases "\<not> is_opened g \<or> (\<exists>f. frame g = Some f \<and> \<not> brightness f < 30 \<and> face_locations f \<noteq> [])")
        case True
        with \<open>rc < max_retries_final2\<close> Cons.prems c have "m = n + 1" "out \<noteq> Returned None"
          by (auto simp: counts_final2_def split: option.splits if_splits)
        with \<open>rc < max_retries_final2\<close> c show ?thesis by (intro exI[of _ "Suc 0"]) simp
      next
        case False
        with \<open>rc < max_retries_final2\<close> Cons.prems c have "capture_loop_final2 gs rc (n + 1) = Some (out, m)"
          by (auto simp: counts_final2_def split: option.splits if_splits)
        from Cons.IH[OF this] Cons.prems(2) obtain k where
          "m = n + 1 + k" "k \<le> length gs"
          "rc + length (filter counts_final2 (take k gs)) \<le> max_retries_final2"
          "out = Returned None \<longleftrightarrow> rc + length (filter counts_final2 (take k gs)) = max_retries_final2"
          by auto
        with c show ?thesis by (intro exI[of _ "Suc k"]) simp
      qed
    qed
  qed
qed

lemma capture_loop_final2_returns:
  "max_retries_final2 \<le> rc + length (filter counts_final2 gs) \<Longrightarrow> capture_loop_final2 gs rc n \<noteq> None"
proof (induction gs arbitrary: rc n)
  case Nil
  then show ?case by simp
next
  case (Cons g gs)
  show ?case
  proof (cases "rc < max_retries_final2")
    case False
    then show ?thesis by simp
  next
    case True
    show ?thesis
    proof (cases "counts_final2 g")
      case c: True
      with Cons.prems have "max_retries_final2 \<le> (rc + 1) + length (filter counts_final2 gs)" by simp
      from Cons.IH[OF this] c True show ?thesis
        by (auto simp: counts_final2_def split: option.splits)
    next
      case c: False
      with Cons.prems have "max_retries_final2 \<le> rc + length (filter counts_final2 gs)" by simp
      from Cons.IH[OF this] c True show ?thesis
        by (auto simp: counts_final2_def split: option.splits)
    qed
  qed
qed

lemma capture_loop_final2_dark:
  "capture_loop_final2 (replicate k dark_grab @ gs) rc n =
     (if rc < max_retries_final2 then capture_loop_final2 gs rc (n + k) else Some (Returned None, n))"
  by (induction k arbitrary: n)
     (cases gs; simp add: dark_grab_def dark_frame_def good_frame_def)+

lemma capture_loop_f6_failed:
  "capture_loop_f6 (replicate k failed_grab) rc n =
     (if rc + k < max_retries_f6 then None else Some (Returned None, n + (max_retries_f6 - rc)))"
  by (induction k arbitrary: n rc) (auto simp: attempt_f6_failed)

lemma capture_loop_final2_good:
  "capture_loop_final2 (good_grab # gs) rc n =
     (if rc < max_retries_final2 then Some (Returned (Some good_frame), n + 1)
      else Some (Returned None, n))"
  by (simp add: good_grab_def good_frame_def)

lemma capture_loop_f6_not_Blocked: "capture_loop_f6 gs rc n \<noteq> Some (Blocked, m)"
  by (induction gs arbitrary: rc n) (auto split: verdict.splits)

lemma capture_loop_final2_not_Blocked:
  "\<forall>g \<in> set gs. is_opened g \<Longrightarrow> capture_loop_final2 gs rc n \<noteq> Some (Blocked, m)"
  by (induction gs arbitrary: rc n) (auto split: option.splits)

text \<open>
  C1, as amended. With the camera open, the capture loop counts towards its bound
  (10 in f6.py, 5 in final2.py) only the iterations that execute \<^verbatim>\<open>retry_count += 1\<close>:
  failed reads, and in f6.py failed saves. Of the iterations a call executed, at most the
  bound were counted ones; the call returns the failure value \<^verbatim>\<open>None\<close> exactly when the
  count reached the bound; and a call that meets that many counted failures returns or
  raises (in final2.py, as long as the camera stays open).
  The quality rejections (too dark, no face, too small, not centred, several faces,
  rotated) are not counted, so the number of iterations has no bound.
\<close>

theorem capture_retry_bound:
  "(capture_image_with_face_f6 rf True new gs dir = Some (out, m, dir') \<longrightarrow>
      m \<le> length gs \<and> length (filter counts_f6 (take m gs)) \<le> max_retries_f6 \<and>
      (out = Returned None \<longleftrightarrow> length (filter counts_f6 (take m gs)) = max_retries_f6)) \<and>
   (max_retries_f6 \<le> length (filter counts_f6 gs) \<longrightarrow>
      (\<exists>out1 m1 dir1. capture_image_with_face_f6 rf True new gs dir = Some (out1, m1, dir1) \<and>
         out1 \<noteq> Blocked)) \<and>
   (capture_image_with_face_final2 new gs dir = Some (out, m, dir') \<longrightarrow>
      m \<le> length gs \<and> length (filter counts_final2 (take m gs)) \<le> max_retries_final2 \<and>
      (out = Returned None \<longleftrightarrow> length (filter counts_final2 (take m gs)) = max_retries_final2)) \<and>
   ((\<forall>g \<in> set gs. is_opened g) \<and> max_retries_final2 \<le> length (filter counts_final2 gs) \<longrightarrow>
      (\<exists>out1 m1 dir1. capture_image_with_face_final2 new gs dir = Some (out1, m1, dir1) \<and>
         out1 \<noteq> Blocked))"
proof (intro conjI impI)
  assume a: "capture_image_with_face_f6 rf True new gs dir = Some (out, m, dir')"
  then have "capture_loop_f6 gs 0 0 = Some (out, m)"
    by (auto simp: capture_image_with_face_f6_def Let_def
        split: option.splits outcome.splits prod.splits)
  from capture_loop_f6_count[OF this]
  show "m \<le> length gs" "length (filter counts_f6 (take m gs)) \<le> max_retries_f6"
    "out = Returned None \<longleftrightarrow> length (filter counts_f6 (take m gs)) = max_retries_f6"
    by auto
next
  assume "max_retries_f6 \<le> length (filter counts_f6 gs)"
  then have "capture_loop_f6 gs 0 0 \<noteq> None"
    by (intro capture_loop_f6_returns) simp
  then obtain out1 m1 where l: "capture_loop_f6 gs 0 0 = Some (out1, m1)" by auto
  with capture_loop_f6_not_Blocked[of gs 0 0 m1] have "out1 \<noteq> Blocked" by auto
  with l show "\<exists>out1 m1 dir1. capture_image_with_face_f6 rf True new gs dir = Some (out1, m1, dir1) \<and>
         out1 \<noteq> Blocked"
    by (auto simp: capture_image_with_face_f6_def Let_def
        split: option.splits outcome.splits prod.splits)
next
  assume a: "capture_image_with_face_final2 new gs dir = Some (out, m, dir')"
  then have "capture_loop_final2 gs 0 0 = Some (out, m)"
    by (auto simp: capture_image_with_face_final2_def
        split: option.splits outcome.splits prod.splits)
  from capture_loop_final2_count[OF this]
  show "m \<le> length gs" "length (filter counts_final2 (take m gs)) \<le> max_retries_final2"
    "out = Returned None \<longleftrightarrow> length (filter counts_final2 (take m gs)) = max_retries_final2"
    by auto
next
  assume a: "(\<forall>g \<in> set gs. is_opened g) \<and> max_retries_final2 \<le> length (filter counts_final2 gs)"
  then have "capture_loop_final2 gs 0 0 \<noteq> None"
    by (intro capture_loop_final2_returns) simp
  then obtain out1 m1 where l: "capture_loop_final2 gs 0 0 = Some (out1, m1)" by auto
  with a capture_loop_final2_not_Blocked[of gs 0 0 m1] have "out1 \<noteq> Blocked" by auto
  with l show "\<exists>out1 m1 dir1. capture_image_with_face_final2 new gs dir = Some (out1, m1, dir1) \<and>
         out1 \<noteq> Blocked"
    by (auto simp: capture_image_with_face_final2_def
        split: option.splits outcome.splits prod.splits)
qed

lemma counts_failed_grab: "counts_f6 failed_grab" "counts_final2 failed_grab"
  by (simp_all add: counts_f6_def counts_final2_def attempt_f6_failed) (simp add: failed_grab_def)

lemma capture_loop_final2_failed:
  "capture_loop_final2 (replicate k failed_grab) rc n =
     (if rc + k < max_retries_final2 then None
      else Some (Returned None, n + (max_retries_final2 - rc)))"
  by (induction k arbitrary: n rc) (auto simp: failed_grab_def)

theorem capture_retry_bound_witness:
  "capture_image_with_face_f6 never_fails True file_1 (replicate 10 failed_grab) []
     = Some (Returned None, 10, []) \<and>
   length (filter counts_f6 (take 10 (replicate 10 failed_grab))) = max_retries_f6 \<and>
   max_retries_f6 \<le> length (filter counts_f6 (replicate 10 failed_grab)) \<and>
   capture_image_with_face_final2 file_1 (replicate 5 failed_grab) []
     = Some (Returned None, 5, []) \<and>
   length (filter counts_final2 (take 5 (replicate 5 failed_grab))) = max_retries_final2 \<and>
   is_opened failed_grab \<and>
   max_retries_final2 \<le> length (filter counts_final2 (replicate 5 failed_grab)) \<and>
   capture_image_with_face_f6 never_fails True file_1 (replicate 10 failed_grab) [] \<noteq> None \<and>
   capture_image_with_face_final2 file_1 (replicate 5 failed_grab) [] \<noteq> None"
proof -
  have run_f6: "capture_image_with_face_f6 never_fails True file_1 (replicate 10 failed_grab) []
     = Some (Returned None, 10, [])"
    by (simp add: capture_image_with_face_f6_def capture_loop_f6_failed max_retries_f6_def
        remove_old_images_def)
  have run_final2: "capture_image_with_face_final2 file_1 (replicate 5 failed_grab) []
     = Some (Returned None, 5, [])"
    by (simp add: capture_image_with_face_final2_def capture_loop_final2_failed
        max_retries_final2_def)
  have enough: "max_retries_f6 \<le> length (filter counts_f6 (replicate 10 failed_grab))"
    "max_retries_final2 \<le> length (filter counts_final2 (replicate 5 failed_grab))"
    by (simp_all add: counts_failed_grab max_retries_f6_def max_retries_final2_def)
  have opened: "is_opened failed_grab" "\<forall>g \<in> set (replicate 5 failed_grab). is_opened g"
    by (simp_all add: failed_grab_def)
  note t10 = capture_retry_bound[of never_fails file_1 "replicate 10 failed_grab" "[]"
      "Returned None" 10 "[]"]
  note t5 = capture_retry_bound[of never_fails file_1 "replicate 5 failed_grab" "[]"
      "Returned None" 5 "[]"]
  from t10 run_f6
  have "length (filter counts_f6 (take 10 (replicate 10 failed_grab))) = max_retries_f6"
    by simp
  moreover
  from t5 run_final2
  have "length (filter counts_final2 (take 5 (replicate 5 failed_grab))) = max_retries_final2"
    by simp
  moreover
  from t10 enough(1)
  have "capture_image_with_face_f6 never_fails True file_1 (replicate 10 failed_grab) [] \<noteq> None"
    by blast
  moreover
  from t5 enough(2) opened(2)
  have "capture_image_with_face_final2 file_1 (replicate 5 failed_grab) [] \<noteq> None"
    by blast
  ultimately show ?thesis using run_f6 run_final2 enough opened(1) by simp
qed

text \<open>
  C1 as stated fails: eleven dark frames and then a good one make the loop of f6.py run
  twelve iterations, more than its bound of ten, and return the frame; six dark frames
  do the same to final2.py and its bound of five.
\<close>

theorem capture_unbounded_counterexample:
  "capture_image_with_face_f6 never_fails True file_1 (replicate 11 dark_grab @ [good_grab]) []
     = Some (Returned (Some good_frame), 12, [file_1]) \<and>
   max_retries_f6 < 12 \<and>
   capture_image_with_face_final2 file_1 (replicate 6 dark_grab @ [good_grab]) []
     = Some (Returned (Some good_frame), 7, [file_1]) \<and>
   max_retries_final2 < 7"
  by (simp add: capture_image_with_face_f6_def capture_image_with_face_final2_def
      capture_loop_f6_dark capture_loop_final2_dark capture_loop_final2_good attempt_f6_good
      max_retries_f6_def max_retries_final2_def remove_old_images_def imwrite_def
      del: capture_loop_final2.simps)

section \<open>Properties of the captured frame\<close>

lemma attempt_f6_Captured:
  assumes "attempt_f6 g = Captured f"
  shows "face_ok f \<and> (face_landmarks f \<noteq> [] \<longrightarrow> tilt_ok f)"
proof -
  from assms obtain f' where fg: "frame g = Some f'"
    by (cases "frame g") (simp_all add: attempt_f6_def)
  have "face_locations f' \<noteq> []"
  proof
    assume "face_locations f' = []"
    then have "attempt_f6 g \<in> {Read_failed, Too_dark, No_face}"
      unfolding attempt_f6_def fg option.case by simp
    with assms show False by simp
  qed
  then obtain t r b l others where fl: "face_locations f' = (t, r, b, l) # others"
    by (cases "face_locations f'") auto
  define xo where "xo = real_of_int \<bar>(l + r) div 2 - shape_1 f' div 2\<bar> / real_of_int (shape_1 f' div 2)"
  define yo where "yo = real_of_int \<bar>(t + b) div 2 - shape_0 f' div 2\<bar> / real_of_int (shape_0 f' div 2)"
  define tilted where "tilted = (case face_landmarks f' of [] \<Rightarrow> False | lm # _ \<Rightarrow> \<bar>eye_angle lm\<bar> > 15)"
  have body: "attempt_f6 g =
     (if \<not> ret g then Read_failed
      else if brightness f' < min_brightness then Too_dark
      else if r - l < min_face_size \<or> b - t < min_face_size then Too_small
      else if shape_1 f' div 2 = 0 \<or> shape_0 f' div 2 = 0 then Zero_division
      else if xo > 0.2 \<or> yo > 0.2 then Not_centered
      else if length (face_locations f') > 1 then Multiple_faces
      else if tilted then Rotated
      else if path_exists_after_write g then Captured f'
      else Save_failed)"
    unfolding attempt_f6_def fg fl xo_def yo_def tilted_def Let_def option.case list.case prod.case ..
  from assms have
    "f' = f"
    "\<not> brightness f' < min_brightness"
    "\<not> (r - l < min_face_size \<or> b - t < min_face_size)"
    "\<not> (shape_1 f' div 2 = 0 \<or> shape_0 f' div 2 = 0)"
    "\<not> (xo > 0.2 \<or> yo > 0.2)"
    "\<not> length (face_locations f') > 1"
    "\<not> tilted"
    unfolding body by (simp_all split: if_splits)
  then show ?thesis
    unfolding face_ok_def tilt_ok_def xo_def yo_def tilted_def using fl
    by (cases others; cases "face_landmarks f") auto
qed

lemma capture_loop_f6_Captured:
  "capture_loop_f6 gs rc n = Some (Returned (Some f), m) \<Longrightarrow> \<exists>g \<in> set gs. attempt_f6 g = Captured f"
  by (induction gs arbitrary: rc n) (auto split: if_splits verdict.splits)

lemma capture_loop_final2_Captured:
  "capture_loop_final2 gs rc n = Some (Returned (Some f), m) \<Longrightarrow> 30 \<le> brightness f \<and> face_locations f \<noteq> []"
  by (induction gs arbitrary: rc n) (auto split: if_splits option.splits)

lemma capture_loop_final2_crowd:
  "capture_loop_final2 (crowd_grab # gs) 0 0 = Some (Returned (Some crowd_frame), 1)"
  by (simp add: crowd_grab_def crowd_frame_def max_retries_final2_def)

text \<open>
  C4, as amended. A frame that \<^verbatim>\<open>capture_image_with_face\<close> of f6.py returns is at or above
  the minimum brightness and holds exactly one detected face, at least 150 pixels wide and
  high, whose centre is within 0.2 of the frame's centre in both axes; when landmarks were
  found for it, its eye line is within 15 degrees. A frame that final2.py returns has a
  mean brightness of at least 30 and at least one detected face; final2.py checks nothing
  else.
\<close>

theorem captured_frame_quality:
  "(capture_image_with_face_f6 rf opened new gs dir = Some (Returned (Some f), n, dir') \<longrightarrow>
      face_ok f \<and> (face_landmarks f \<noteq> [] \<longrightarrow> tilt_ok f)) \<and>
   (capture_image_with_face_final2 new gs dir = Some (Returned (Some f), n, dir') \<longrightarrow>
      30 \<le> brightness f \<and> face_locations f \<noteq> [])"
proof (intro conjI impI)
  assume "capture_image_with_face_f6 rf opened new gs dir = Some (Returned (Some f), n, dir')"
  then have "capture_loop_f6 gs 0 0 = Some (Returned (Some f), n)"
    by (auto simp: capture_image_with_face_f6_def Let_def
        split: if_splits option.splits outcome.splits prod.splits)
  then obtain g where "attempt_f6 g = Captured f"
    using capture_loop_f6_Captured by blast
  from attempt_f6_Captured[OF this]
  show "face_ok f" "face_landmarks f \<noteq> [] \<Longrightarrow> tilt_ok f" by simp_all
next
  assume "capture_image_with_face_final2 new gs dir = Some (Returned (Some f), n, dir')"
  then have "capture_loop_final2 gs 0 0 = Some (Returned (Some f), n)"
    by (auto simp: capture_image_with_face_final2_def
        split: option.splits outcome.splits prod.splits)
  from capture_loop_final2_Captured[OF this]
  show "30 \<le> brightness f" "face_locations f \<noteq> []" by simp_all
qed

theorem captured_frame_quality_witness:
  "capture_image_with_face_f6 never_fails True file_1 [good_grab] []
     = Some (Returned (Some good_frame), 1, [file_1]) \<and>
   face_ok good_frame \<and> face_landmarks good_frame \<noteq> [] \<and> tilt_ok good_frame \<and>
   capture_image_with_face_final2 file_1 [crowd_grab] []
     = Some (Returned (Some crowd_frame), 1, [file_1]) \<and>
   30 \<le> brightness crowd_frame \<and> face_locations crowd_frame \<noteq> []"
proof -
  have a: "capture_image_with_face_f6 never_fails True file_1 [good_grab] []
     = Some (Returned (Some good_frame), 1, [file_1])"
    by (simp add: capture_image_with_face_f6_def attempt_f6_good max_retries_f6_def
        remove_old_images_def imwrite_def)
  have b: "capture_image_with_face_final2 file_1 [crowd_grab] []
     = Some (Returned (Some crowd_frame), 1, [file_1])"
    by (simp add: capture_image_with_face_final2_def capture_loop_final2_crowd imwrite_def
        del: capture_loop_final2.simps)
  have c: "face_landmarks good_frame \<noteq> []" by (simp add: good_frame_def)
  from captured_frame_quality[of never_fails True file_1 "[good_grab]" "[]" good_frame 1 "[file_1]",
      THEN conjunct1, rule_format, OF a] c
  have "face_ok good_frame \<and> tilt_ok good_frame" by simp
  moreover
  from captured_frame_quality[of _ _ file_1 "[crowd_grab]" "[]" crowd_frame 1 "[file_1]",
      THEN conjunct2, rule_format, OF b]
  have "30 \<le> brightness crowd_frame \<and> face_locations crowd_frame \<noteq> []" by simp
  ultimately show ?thesis using a b c by simp
qed


text \<open>
  C4 as stated fails on final2.py: a bright frame with two small faces away from the
  centre is returned.
\<close>

theorem captured_frame_quality_counterexample:
  "capture_image_with_face_final2 file_1 [crowd_grab] []
     = Some (Returned (Some crowd_frame), 1, [file_1]) \<and>
   length (face_locations crowd_frame) = 2 \<and> \<not> face_ok crowd_frame \<and> \<not> tilt_ok crowd_frame"
  by (simp add: capture_image_with_face_final2_def capture_loop_final2_crowd imwrite_def
      face_ok_def tilt_ok_def crowd_frame_def del: capture_loop_final2.simps)


section \<open>Properties of the capture files\<close>

lemma fold_os_remove:
  "\<forall>f. \<not> rf f \<Longrightarrow> fold (os_remove rf) xs dir = filter (\<lambda>f. f \<notin> set xs) dir"
proof (induction xs arbitrary: dir)
  case Nil
  then show ?case by simp
next
  case (Cons x xs)
  then show ?case
    by (auto simp: os_remove_def removeAll_filter_not_eq intro: filter_cong)
qed

lemma filter_butlast_sorted:
  assumes "mset ys = mset dir"
  shows "length (filter (\<lambda>f. f \<notin> set (butlast ys)) dir) \<le> 1"
    and "set (filter (\<lambda>f. f \<notin> set (butlast ys)) dir) \<subseteq> (if ys = [] then {} else {last ys})"
proof -
  let ?P = "\<lambda>f. f \<notin> set (butlast ys)"
  have "mset (filter ?P dir) = mset (filter ?P ys)"
    using assms by simp
  then have len: "length (filter ?P dir) = length (filter ?P ys)"
    and st: "set (filter ?P dir) = set (filter ?P ys)"
    by (metis size_mset, metis set_mset_mset)
  have split: "filter ?P ys = (if ys = [] then [] else filter ?P [last ys])"
  proof (cases "ys = []")
    case True
    then show ?thesis by simp
  next
    case False
    then have "ys = butlast ys @ [last ys]" by simp
    then have "filter ?P ys = filter ?P (butlast ys) @ filter ?P [last ys]"
      by (metis filter_append)
    moreover have "filter ?P (butlast ys) = []" by (simp add: filter_empty_conv)
    ultimately show ?thesis using False by simp
  qed
  show "length (filter ?P dir) \<le> 1" unfolding len split by simp
  show "set (filter ?P dir) \<subseteq> (if ys = [] then {} else {last ys})"
    unfolding st split by auto
qed

lemma sorted_last_max:
  "sorted (map k ys) \<Longrightarrow> g \<in> set ys \<Longrightarrow> k g \<le> k (last ys)"
  by (induction ys) (auto split: if_splits)

lemma remove_old_images_kept:
  assumes "\<forall>f. \<not> rf f"
  shows "length (remove_old_images rf dir) \<le> 1"
    and "f \<in> set (remove_old_images rf dir) \<Longrightarrow> f \<in> set dir \<and> (\<forall>g \<in> set dir. stamp g \<le> stamp f)"
proof -
  let ?ys = "sort_key stamp dir"
  have eq: "remove_old_images rf dir = filter (\<lambda>f. f \<notin> set (butlast ?ys)) dir"
    using assms by (simp add: remove_old_images_def fold_os_remove)
  have m: "mset ?ys = mset dir" by simp
  show "length (remove_old_images rf dir) \<le> 1"
    unfolding eq by (rule filter_butlast_sorted(1)[OF m])
  assume "f \<in> set (remove_old_images rf dir)"
  then have in_f: "f \<in> set (filter (\<lambda>f. f \<notin> set (butlast ?ys)) dir)" unfolding eq .
  then have "f \<in> set dir" by simp
  moreover from in_f filter_butlast_sorted(2)[OF m] have "?ys \<noteq> []" "f = last ?ys"
    by (auto split: if_splits)
  moreover have "stamp g \<le> stamp (last ?ys)" if "g \<in> set dir" for g
    using sorted_last_max[of stamp ?ys g] that by simp
  ultimately show "f \<in> set dir \<and> (\<forall>g \<in> set dir. stamp g \<le> stamp f)" by simp
qed


lemma remove_old_images_examples:
  "remove_old_images never_fails [] = []"
  "remove_old_images never_fails [file_1] = [file_1]"
  "remove_old_images never_fails [file_1, file_2] = [file_2]"
  by (simp_all add: remove_old_images_def os_remove_def never_fails_def file_1_def file_2_def)

lemma imwrite_examples:
  "imwrite file_2 [file_1] = [file_1, file_2]"
  "imwrite file_3 [file_2] = [file_2, file_3]"
  "imwrite file_3 [file_1, file_2] = [file_1, file_2, file_3]"
  by (simp_all add: imwrite_def file_1_def file_2_def file_3_def)

text \<open>
  C8, as amended. When no removal fails, \<^verbatim>\<open>capture_image_with_face\<close> of f6.py leaves at
  most two capture files: of the files it found, at most the one with the latest
  timestamp in its name, and the file it wrote when it returned a frame; without a
  returned frame at most one file is left. final2.py removes no capture file.
\<close>

theorem capture_files_pruned:
  "((\<forall>f. \<not> rf f) \<and> capture_image_with_face_f6 rf opened new gs dir = Some (out, n, dir') \<longrightarrow>
      length dir' \<le> 2 \<and>
      ((\<forall>fr. out \<noteq> Returned (Some fr)) \<longrightarrow> length dir' \<le> 1) \<and>
      (\<forall>f \<in> set dir'. f = new \<or> (f \<in> set dir \<and> (\<forall>g \<in> set dir. stamp g \<le> stamp f)))) \<and>
   (capture_image_with_face_final2 new gs dir = Some (out, n, dir') \<longrightarrow>
      (\<forall>f \<in> set dir. stamp f \<noteq> stamp new \<longrightarrow> f \<in> set dir'))"
proof (intro conjI impI)
  assume a: "(\<forall>f. \<not> rf f) \<and> capture_image_with_face_f6 rf opened new gs dir = Some (out, n, dir')"
  then have rf: "\<forall>f. \<not> rf f" by simp
  let ?pruned = "remove_old_images rf dir"
  from a have d: "dir' = ?pruned \<or> ((\<exists>fr. out = Returned (Some fr)) \<and> dir' = imwrite new ?pruned)"
    by (auto simp: capture_image_with_face_f6_def Let_def
        split: if_splits option.splits outcome.splits prod.splits)
  have len: "length ?pruned \<le> 1" by (rule remove_old_images_kept(1)[OF rf])
  have "length (imwrite new ?pruned) \<le> Suc (length ?pruned)"
    by (simp add: imwrite_def)
  with len d show "length dir' \<le> 2" by auto
  from d len show "(\<forall>fr. out \<noteq> Returned (Some fr)) \<Longrightarrow> length dir' \<le> 1" by auto
  have "set (imwrite new ?pruned) \<subseteq> insert new (set ?pruned)"
    by (auto simp: imwrite_def)
  with d have "set dir' \<subseteq> insert new (set ?pruned)" by auto
  with remove_old_images_kept(2)[OF rf]
  show "\<forall>f \<in> set dir'. f = new \<or> (f \<in> set dir \<and> (\<forall>g \<in> set dir. stamp g \<le> stamp f))"
    by blast
next
  assume "capture_image_with_face_final2 new gs dir = Some (out, n, dir')"
  then have "dir' = dir \<or> dir' = imwrite new dir"
    by (auto simp: capture_image_with_face_final2_def
        split: option.splits outcome.splits prod.splits)
  then show "\<forall>f \<in> set dir. stamp f \<noteq> stamp new \<longrightarrow> f \<in> set dir'"
    by (auto simp: imwrite_def)
qed

theorem capture_files_pruned_witness:
  "(\<forall>f. \<not> never_fails f) \<and>
   capture_image_with_face_f6 never_fails True file_3 [good_grab] [file_1, file_2]
     = Some (Returned (Some good_frame), 1, [file_2, file_3]) \<and>
   length [file_2, file_3] \<le> 2 \<and>
   capture_image_with_face_f6 never_fails True file_3 [] [file_1, file_2] = None \<and>
   capture_image_with_face_f6 never_fails False file_3 [] [file_1, file_2]
     = Some (Blocked, 0, [file_2]) \<and>
   capture_image_with_face_final2 file_3 [good_grab] [file_1, file_2]
     = Some (Returned (Some good_frame), 1, [file_1, file_2, file_3]) \<and>
   file_1 \<in> set [file_1, file_2, file_3]"
proof -
  have nf: "\<forall>f. \<not> never_fails f" by (simp add: never_fails_def)
  have a: "capture_image_with_face_f6 never_fails True file_3 [good_grab] [file_1, file_2]
     = Some (Returned (Some good_frame), 1, [file_2, file_3])"
    by (simp add: capture_image_with_face_f6_def remove_old_images_examples attempt_f6_good
      max_retries_f6_def imwrite_examples)
  have b: "capture_image_with_face_f6 never_fails False file_3 [] [file_1, file_2]
     = Some (Blocked, 0, [file_2])"
    by (simp add: capture_image_with_face_f6_def remove_old_images_examples)
  have c: "capture_image_with_face_final2 file_3 [good_grab] [file_1, file_2]
     = Some (Returned (Some good_frame), 1, [file_1, file_2, file_3])"
    by (simp add: capture_image_with_face_final2_def capture_loop_final2_good
      max_retries_final2_def imwrite_examples
      del: capture_loop_final2.simps)
  have d: "capture_image_with_face_f6 never_fails True file_3 [] [file_1, file_2] = None"
    by (simp add: capture_image_with_face_f6_def max_retries_f6_def)
  note t = capture_files_pruned[of never_fails _ file_3 _ "[file_1, file_2]"]
  from t[of True "[good_grab]" "Returned (Some good_frame)" 1 "[file_2, file_3]", THEN conjunct1] nf a
  have "length [file_2, file_3] \<le> 2" by blast
  moreover
  from t[of False "[]" Blocked 0 "[file_2]", THEN conjunct1] nf b
  have "length [file_2] \<le> 1" by blast
  moreover
  from t[of True "[good_grab]" "Returned (Some good_frame)" 1 "[file_1, file_2, file_3]", THEN conjunct2] c
  have "file_1 \<in> set [file_1, file_2, file_3]"
    by (simp add: file_1_def file_3_def)
  ultimately show ?thesis using nf a b c d by simp
qed



text \<open>
  C8 as stated fails: with one earlier capture on disk, a successful capture of f6.py
  leaves two files, and final2.py leaves all three.
\<close>

theorem capture_files_pruned_counterexample:
  "capture_image_with_face_f6 never_fails True file_2 [good_grab] [file_1]
     = Some (Returned (Some good_frame), 1, [file_1, file_2]) \<and>
   length [file_1, file_2] = 2 \<and>
   capture_image_with_face_final2 file_3 [good_grab] [file_1, file_2]
     = Some (Returned (Some good_frame), 1, [file_1, file_2, file_3])"
  by (simp add: capture_image_with_face_f6_def capture_image_with_face_final2_def
      remove_old_images_examples attempt_f6_good capture_loop_final2_good
      max_retries_f6_def max_retries_final2_def imwrite_examples
      del: capture_loop_final2.simps)

section \<open>Properties of the authorization\<close>

lemma remove_latest_image_fields:
  "motor_running (remove_latest_image rf s) = motor_running s"
  "vehicle_stopped (remove_latest_image rf s) = vehicle_stopped s"
  "pending_authorization (remove_latest_image rf s) = pending_authorization s"
  "motor_threads (remove_latest_image rf s) = motor_threads s"
  "sms_log (remove_latest_image rf s) = sms_log s"
  by (simp_all add: remove_latest_image_def split: option.splits)

lemma remove_latest_image_files:
  "files (remove_latest_image rf s) =
     (case latest_image (files s) of None \<Rightarrow> files s | Some f \<Rightarrow> os_remove rf f (files s))"
  by (simp add: remove_latest_image_def split: option.splits)

lemma max_ctime_mem: "max_ctime best fs \<in> insert best (set fs)"
  by (induction fs arbitrary: best) auto

lemma max_ctime_ge: "ctime best \<le> ctime (max_ctime best fs)"
proof (induction fs arbitrary: best)
  case Nil
  then show ?case by simp
next
  case (Cons a fs)
  from Cons[of "if ctime best < ctime a then a else best"] show ?case
    by (auto split: if_splits)
qed

lemma max_ctime_max: "g \<in> set fs \<Longrightarrow> ctime g \<le> ctime (max_ctime best fs)"
proof (induction fs arbitrary: best)
  case Nil
  then show ?case by simp
next
  case (Cons a fs)
  show ?case
  proof (cases "g = a")
    case True
    have "ctime a \<le> ctime (if ctime best < ctime a then a else best)" by simp
    also have "\<dots> \<le> ctime (max_ctime (if ctime best < ctime a then a else best) fs)"
      by (rule max_ctime_ge)
    finally show ?thesis using True by simp
  next
    case False
    with Cons.prems have "g \<in> set fs" by simp
    from Cons.IH[OF this] show ?thesis by simp
  qed
qed

lemma latest_image_Some:
  assumes "latest_image fs = Some f"
  shows "f \<in> set fs" and "g \<in> set fs \<Longrightarrow> ctime g \<le> ctime f"
proof -
  from assms obtain a rest where fs: "fs = a # rest" and f: "f = max_ctime a rest"
    by (cases fs) (auto simp: latest_image_def)
  from max_ctime_mem[of a rest] show "f \<in> set fs" unfolding fs f by simp
  assume "g \<in> set fs"
  then have "g = a \<or> g \<in> set rest" unfolding fs by simp
  then show "ctime g \<le> ctime f"
    unfolding f using max_ctime_ge[of a rest] max_ctime_max[of g rest a] by auto
qed

text \<open>
  C2, as amended. The \<^verbatim>\<open>POST\<close> branch of \<^verbatim>\<open>authorize\<close> does not read the pending flag.
  Made when no authorization is pending, a call with action \<^verbatim>\<open>no\<close> starts no motor
  thread and leaves the running and stopped flags as they were; in final2.py it removes no
  file, in f6.py it removes the latest capture file when there is one. A call with action
  \<^verbatim>\<open>yes\<close> starts a motor thread and marks the vehicle running, whether or not an
  authorization is pending.
\<close>

theorem authorize_not_pending:
  "(\<not> pending_authorization s \<longrightarrow>
      (let s' = authorize_f6 rf No s in
         motor_threads s' = motor_threads s \<and> motor_running s' = motor_running s \<and>
         vehicle_stopped s' = vehicle_stopped s \<and> \<not> pending_authorization s' \<and>
         files s' = (case latest_image (files s) of None \<Rightarrow> files s
                     | Some f \<Rightarrow> os_remove rf f (files s))) \<and>
      (let s' = fst (authorize_final2 No s) in
         motor_threads s' = motor_threads s \<and> motor_running s' = motor_running s \<and>
         vehicle_stopped s' = vehicle_stopped s \<and> \<not> pending_authorization s' \<and>
         files s' = files s)) \<and>
   (let s' = authorize_f6 rf Yes s in
      motor_threads s' = Suc (motor_threads s) \<and> motor_running s' \<and> \<not> vehicle_stopped s') \<and>
   (let s' = fst (authorize_final2 Yes s) in
      motor_threads s' = Suc (motor_threads s) \<and> motor_running s' \<and> \<not> vehicle_stopped s' \<and>
      files s' = files s) \<and>
   (a \<noteq> Other_action \<longrightarrow>
      authorize_f6 rf a (s\<lparr>pending_authorization := b\<rparr>) = authorize_f6 rf a s) \<and>
   authorize_final2 No (s\<lparr>pending_authorization := b\<rparr>) = authorize_final2 No s \<and>
   (let s' = fst (authorize_final2 Yes (s\<lparr>pending_authorization := b\<rparr>));
        s'' = fst (authorize_final2 Yes s) in
      motor_threads s' = motor_threads s'' \<and> motor_running s' = motor_running s'' \<and>
      vehicle_stopped s' = vehicle_stopped s'' \<and> files s' = files s'')"
proof (intro conjI impI)
  assume "a \<noteq> Other_action"
  then show "authorize_f6 rf a (s\<lparr>pending_authorization := b\<rparr>) = authorize_f6 rf a s"
    by (cases a)
       (simp_all add: authorize_f6_def Let_def start_motor_thread_def send_sms_def
          remove_latest_image_def split: option.splits)
qed (simp_all add: authorize_f6_def authorize_final2_def send_sms_final2_def Let_def
       start_motor_thread_def send_sms_def remove_latest_image_fields remove_latest_image_files)

theorem authorize_not_pending_witness:
  "\<not> pending_authorization initial_state \<and>
   motor_threads (authorize_f6 never_fails No initial_state) = 0 \<and>
   vehicle_stopped (authorize_f6 never_fails No initial_state) \<and>
   files (fst (authorize_final2 No initial_state)) = [] \<and>
   motor_threads (authorize_f6 never_fails Yes initial_state) = Suc 0 \<and>
   motor_running (fst (authorize_final2 Yes initial_state)) \<and>
   Yes \<noteq> Other_action \<and>
   authorize_f6 never_fails Yes (initial_state\<lparr>pending_authorization := True\<rparr>)
     = authorize_f6 never_fails Yes initial_state"
proof -
  have np: "\<not> pending_authorization initial_state" by (simp add: initial_state_def)
  note t = authorize_not_pending[of initial_state never_fails Yes True]
  from t np have
    "motor_threads (authorize_f6 never_fails No initial_state) = 0 \<and>
     vehicle_stopped (authorize_f6 never_fails No initial_state) \<and>
     files (fst (authorize_final2 No initial_state)) = []"
    by (simp add: Let_def initial_state_def)
  moreover from t have
    "motor_threads (authorize_f6 never_fails Yes initial_state) = Suc 0 \<and>
     motor_running (fst (authorize_final2 Yes initial_state))"
    by (simp add: Let_def initial_state_def)
  moreover from t have
    "authorize_f6 never_fails Yes (initial_state\<lparr>pending_authorization := True\<rparr>)
       = authorize_f6 never_fails Yes initial_state"
    by simp
  ultimately show ?thesis using np by simp
qed

text \<open>
  C2 as stated fails: from the initial state, where nothing is pending, a call with action
  \<^verbatim>\<open>yes\<close> starts the motor and clears \<^verbatim>\<open>vehicle_stopped\<close> in both variants, and in f6.py
  a call with action \<^verbatim>\<open>no\<close> removes the capture file on disk.
\<close>

theorem authorize_not_pending_counterexample:
  "\<not> pending_authorization initial_state \<and> vehicle_stopped initial_state \<and>
   motor_threads initial_state = 0 \<and>
   motor_threads (authorize_f6 never_fails Yes initial_state) = 1 \<and>
   \<not> vehicle_stopped (authorize_f6 never_fails Yes initial_state) \<and>
   motor_threads (fst (authorize_final2 Yes initial_state)) = 1 \<and>
   \<not> vehicle_stopped (fst (authorize_final2 Yes initial_state)) \<and>
   files (initial_state\<lparr>files := [file_1]\<rparr>) = [file_1] \<and>
   files (authorize_f6 never_fails No (initial_state\<lparr>files := [file_1]\<rparr>)) = []"
  by (simp add: authorize_f6_def authorize_final2_def send_sms_final2_def Let_def
      start_motor_thread_def send_sms_def remove_latest_image_def latest_image_def os_remove_def
      never_fails_def initial_state_def)

text \<open>
  C6, as amended. A call with action \<^verbatim>\<open>no\<close> made while an authorization is pending clears
  the pending flag and the flag of the sent message, starts no motor thread and leaves
  the running and stopped flags as they were. In f6.py it removes the capture file of
  latest creation time, when there is one and its removal does not fail, and no other
  file; in final2.py it removes no file.
\<close>

theorem deny_pending:
  "(pending_authorization s \<longrightarrow>
      (let s' = authorize_f6 rf No s in
         \<not> pending_authorization s' \<and> \<not> sms_sent_for_current_attempt s' \<and>
         vehicle_stopped s' = vehicle_stopped s \<and> motor_running s' = motor_running s \<and>
         motor_threads s' = motor_threads s \<and>
         files s' = (case latest_image (files s) of
                       None \<Rightarrow> files s
                     | Some g \<Rightarrow> if rf g then files s else removeAll g (files s)))) \<and>
   (pending_authorization s \<and> latest_image (files s) = Some f \<and> \<not> rf f \<longrightarrow>
      (let s' = authorize_f6 rf No s in
         f \<in> set (files s) \<and> (\<forall>g \<in> set (files s). ctime g \<le> ctime f) \<and>
         files s' = removeAll f (files s) \<and> f \<notin> set (files s'))) \<and>
   (pending_authorization s \<longrightarrow>
      (let s' = fst (authorize_final2 No s) in
         files s' = files s \<and> snd (authorize_final2 No s) = Redirect \<and>
         \<not> pending_authorization s' \<and> \<not> sms_sent_for_current_attempt s' \<and>
         vehicle_stopped s' = vehicle_stopped s \<and> motor_running s' = motor_running s \<and>
         motor_threads s' = motor_threads s))"
proof (intro conjI impI)
  show "let s' = authorize_f6 rf No s in
         \<not> pending_authorization s' \<and> \<not> sms_sent_for_current_attempt s' \<and>
         vehicle_stopped s' = vehicle_stopped s \<and> motor_running s' = motor_running s \<and>
         motor_threads s' = motor_threads s \<and>
         files s' = (case latest_image (files s) of
                       None \<Rightarrow> files s
                     | Some g \<Rightarrow> if rf g then files s else removeAll g (files s))"
    by (simp add: authorize_f6_def Let_def remove_latest_image_fields remove_latest_image_files
        os_remove_def split: option.splits)
next
  assume a: "pending_authorization s \<and> latest_image (files s) = Some f \<and> \<not> rf f"
  then have l: "latest_image (files s) = Some f" and r: "\<not> rf f" by simp_all
  from latest_image_Some[OF l]
  have "f \<in> set (files s)" "\<forall>g \<in> set (files s). ctime g \<le> ctime f" by auto
  moreover have "files (authorize_f6 rf No s) = removeAll f (files s)"
    using l r by (simp add: authorize_f6_def Let_def remove_latest_image_files os_remove_def)
  ultimately show "let s' = authorize_f6 rf No s in
         f \<in> set (files s) \<and> (\<forall>g \<in> set (files s). ctime g \<le> ctime f) \<and>
         files s' = removeAll f (files s) \<and> f \<notin> set (files s')"
    by (simp add: Let_def)
next
  show "let s' = fst (authorize_final2 No s) in
         files s' = files s \<and> snd (authorize_final2 No s) = Redirect \<and>
         \<not> pending_authorization s' \<and> \<not> sms_sent_for_current_attempt s' \<and>
         vehicle_stopped s' = vehicle_stopped s \<and> motor_running s' = motor_running s \<and>
         motor_threads s' = motor_threads s"
    by (simp add: authorize_final2_def Let_def)
qed

theorem deny_pending_witness:
  "pending_authorization (initial_state\<lparr>pending_authorization := True, files := [file_1, file_2]\<rparr>) \<and>
   latest_image [file_1, file_2] = Some file_2 \<and> \<not> never_fails file_2 \<and>
   files (authorize_f6 never_fails No
            (initial_state\<lparr>pending_authorization := True, files := [file_1, file_2]\<rparr>)) = [file_1] \<and>
   \<not> pending_authorization (authorize_f6 never_fails No
            (initial_state\<lparr>pending_authorization := True, files := [file_1, file_2]\<rparr>)) \<and>
   vehicle_stopped (authorize_f6 never_fails No
            (initial_state\<lparr>pending_authorization := True, files := [file_1, file_2]\<rparr>)) \<and>
   \<not> pending_authorization (fst (authorize_final2 No
            (initial_state\<lparr>pending_authorization := True, files := [file_1, file_2]\<rparr>))) \<and>
   pending_authorization (initial_state\<lparr>pending_authorization := True\<rparr>) \<and>
   \<not> pending_authorization (authorize_f6 never_fails No
            (initial_state\<lparr>pending_authorization := True\<rparr>)) \<and>
   files (authorize_f6 never_fails No (initial_state\<lparr>pending_authorization := True\<rparr>)) = []"
proof -
  let ?s = "initial_state\<lparr>pending_authorization := True, files := [file_1, file_2]\<rparr>"
  let ?e = "initial_state\<lparr>pending_authorization := True\<rparr>"
  have p: "pending_authorization ?s" "pending_authorization ?e" by simp_all
  have l: "latest_image (files ?s) = Some file_2"
    by (simp add: latest_image_def file_1_def file_2_def)
  have le: "latest_image (files ?e) = None"
    by (simp add: latest_image_def initial_state_def)
  have n: "\<not> never_fails file_2" by (simp add: never_fails_def)
  have ne: "file_1 \<noteq> file_2" by (simp add: file_1_def file_2_def)
  note t = deny_pending[of ?s never_fails file_2]
  from t[THEN conjunct1, rule_format, OF p(1)]
  have "\<not> pending_authorization (authorize_f6 never_fails No ?s) \<and>
        vehicle_stopped (authorize_f6 never_fails No ?s)"
    by (simp add: Let_def initial_state_def)
  moreover
  from t[THEN conjunct2, THEN conjunct1, rule_format] p(1) l n
  have "files (authorize_f6 never_fails No ?s) = [file_1]"
    using ne by (simp add: Let_def)
  moreover
  from t[THEN conjunct2, THEN conjunct2, rule_format, OF p(1)]
  have "\<not> pending_authorization (fst (authorize_final2 No ?s))"
    by (simp add: Let_def)
  moreover
  from deny_pending[of ?e never_fails file_2, THEN conjunct1, rule_format, OF p(2)] le
  have "\<not> pending_authorization (authorize_f6 never_fails No ?e) \<and>
        files (authorize_f6 never_fails No ?e) = []"
    by (simp add: Let_def initial_state_def)
  ultimately show ?thesis using p l n by simp
qed

text \<open>
  C6 as stated fails on final2.py: after the denial the pending capture file is still on
  disk.
\<close>

theorem deny_pending_counterexample:
  "pending_authorization (initial_state\<lparr>pending_authorization := True, files := [file_1]\<rparr>) \<and>
   files (fst (authorize_final2 No
            (initial_state\<lparr>pending_authorization := True, files := [file_1]\<rparr>))) = [file_1]"
  by (simp add: authorize_final2_def initial_state_def)

section \<open>Running while pending\<close>

lemma start_stranger:
  "start_motor_web_f6 abs_distance owner_references stranger_env initial_state =
     Some (Returned
       \<lparr>motor_running = False, vehicle_stopped = True, pending_authorization = True,
        sms_sent_for_current_attempt = True, face_recognition_active = True,
        files = [file_1], motor_threads = 0, sms_log = [Unauthorized_attempt]\<rparr>)"
  by (simp add: start_motor_web_f6_def start_vehicle_with_face_f6_def stranger_env_def
      initial_state_def capture_image_with_face_f6_def remove_old_images_def attempt_f6_good
      max_retries_f6_def imwrite_def compare_faces_def owner_references_def strong_match_f6_def
      confidence_def abs_distance_def send_image_to_owner_def Let_def)

lemma start_owner_while_pending:
  "start_motor_web_f6 abs_distance owner_references owner_env
       \<lparr>motor_running = False, vehicle_stopped = True, pending_authorization = True,
        sms_sent_for_current_attempt = True, face_recognition_active = True,
        files = [file_1], motor_threads = 0, sms_log = [Unauthorized_attempt]\<rparr> =
     Some (Returned
       \<lparr>motor_running = True, vehicle_stopped = False, pending_authorization = True,
        sms_sent_for_current_attempt = False, face_recognition_active = True,
        files = [file_1], motor_threads = 1, sms_log = [Unauthorized_attempt, Vehicle_started]\<rparr>)"
  by (simp add: start_motor_web_f6_def start_vehicle_with_face_f6_def owner_env_def
      capture_image_with_face_f6_def remove_old_images_examples attempt_f6_good
      max_retries_f6_def imwrite_examples compare_faces_def owner_references_def strong_match_f6_def
      confidence_def abs_distance_def send_sms_def start_motor_thread_def Let_def
      os_remove_def never_fails_def)
     (simp add: file_1_def file_2_def)

text \<open>
  C5 fails on the code. A start attempt by a stranger leaves an authorization pending; a
  second start attempt, by the owner, matches and starts the motor, and
  \<^verbatim>\<open>start_vehicle_with_face\<close> does not clear \<^verbatim>\<open>pending_authorization\<close>: the state reached
  has the motor running and an authorization pending.
\<close>

theorem running_while_pending:
  "run_f6 abs_distance owner_references [Start_vehicle stranger_env, Start_vehicle owner_env]
       initial_state =
     Some (Returned
       \<lparr>motor_running = True, vehicle_stopped = False, pending_authorization = True,
        sms_sent_for_current_attempt = False, face_recognition_active = True,
        files = [file_1], motor_threads = 1, sms_log = [Unauthorized_attempt, Vehicle_started]\<rparr>)"
  by (simp add: start_stranger start_owner_while_pending)

section \<open>Properties of the motor thread\<close>

lemma motor_run_Released: "motor_run (replicate n False) Released = (Released, [])"
  by (induction n) auto

lemma motor_run_append:
  "motor_run (xs @ ys) p =
     (case motor_run xs p of (p1, out) \<Rightarrow>
        (case motor_run ys p1 of (p2, outs) \<Rightarrow> (p2, out @ outs)))"
  by (induction xs arbitrary: p) (auto split: prod.splits)

lemma motor_run_5:
  "\<exists>out. motor_run [False, False, False, False, False] p = (Released, out) \<and>
         length (filter is_step out) \<le> 1 \<and> count_list out Wait \<le> 1 \<and>
         ((\<forall>i. p \<noteq> Set_step i) \<longrightarrow> filter is_step out = [])"
  by (cases p) auto

lemma motor_run_short:
  "n < 5 \<Longrightarrow>
     length (filter is_step (snd (motor_run (replicate n False) p))) \<le> 1 \<and>
     count_list (snd (motor_run (replicate n False) p)) Wait \<le> 1 \<and>
     ((\<forall>i. p \<noteq> Set_step i) \<longrightarrow> filter is_step (snd (motor_run (replicate n False) p)) = [])"
proof -
  assume "n < 5"
  then consider "n = 0" | "n = 1" | "n = 2" | "n = 3" | "n = 4" by linarith
  then show ?thesis
    by cases (cases p; simp add: numeral_eq_Suc)+
qed

text \<open>
  C9. Once the shared flag is cleared and stays cleared, the motor thread, wherever it
  stands in its loop, issues at most one more step command (and only when it had passed
  the test of the flag just before), goes through at most one more call of \<^verbatim>\<open>sleep\<close>, and
  after at most five transitions has left the loop and released the coils. Time itself is
  not modelled: the bound is in steps and in calls of \<^verbatim>\<open>sleep\<close>.
\<close>

theorem motor_stops_within_one_step:
  "length (filter is_step (snd (motor_run (replicate n False) p))) \<le> 1 \<and>
   count_list (snd (motor_run (replicate n False) p)) Wait \<le> 1 \<and>
   ((\<forall>i. p \<noteq> Set_step i) \<longrightarrow> filter is_step (snd (motor_run (replicate n False) p)) = []) \<and>
   (5 \<le> n \<longrightarrow> fst (motor_run (replicate n False) p) = Released)"
proof (cases "n < 5")
  case True
  with motor_run_short[OF True, of p] show ?thesis by simp
next
  case False
  then obtain m where n: "n = 5 + m" using le_Suc_ex[of 5 n] by auto
  have r: "replicate n False = [False, False, False, False, False] @ replicate m False"
    unfolding n replicate_add by (simp add: numeral_eq_Suc)
  from motor_run_5[of p] obtain out where
    o: "motor_run [False, False, False, False, False] p = (Released, out)"
       "length (filter is_step out) \<le> 1" "count_list out Wait \<le> 1"
       "(\<forall>i. p \<noteq> Set_step i) \<longrightarrow> filter is_step out = []"
    by blast
  have "motor_run (replicate n False) p = (Released, out)"
    unfolding r motor_run_append o(1) by (simp add: motor_run_Released)
  with o(2,3,4) show ?thesis by simp
qed

theorem motor_stops_within_one_step_witness:
  "motor_run (replicate 5 False) (Set_step 3) = (Released, [Step (0, 1, 1, 0), Wait, Release]) \<and>
   motor_run (replicate 5 False) (For_test 3) = (Released, [Release]) \<and>
   (5::nat) \<le> 5 \<and>
   motor_run (replicate 4 True) While_test = (For_test 1, [Step (1, 0, 0, 0), Wait])"
proof -
  have a: "motor_run (replicate 5 False) (Set_step 3) = (Released, [Step (0, 1, 1, 0), Wait, Release])"
    by (simp add: numeral_eq_Suc step_sequence_def)
  have b: "motor_run (replicate 5 False) (For_test 3) = (Released, [Release])"
    by (simp add: numeral_eq_Suc step_sequence_def)
  have c: "motor_run (replicate 4 True) While_test = (For_test 1, [Step (1, 0, 0, 0), Wait])"
    by (simp add: numeral_eq_Suc step_sequence_def)
  from motor_stops_within_one_step[of 5 "For_test 3"] b
  have "fst (motor_run (replicate 5 False) (For_test 3)) = Released" by simp
  with a b c show ?thesis by simp
qed


end
